theory Spec2Isabelle
  imports Complex_Main "HOL-Library.Multiset"
begin

section \<open>Data model of package cheapoffers\<close>

text \<open>
  A \<open>time.Time\<close> is read only through \<open>Equal\<close> and \<open>Before\<close>, which compare instants:
  it is the instant, an integer count of nanoseconds from Go's zero time, so that
  \<open>Equal\<close> is \<open>=\<close> and \<open>Before\<close> is \<open><\<close>.

  A price is a \<open>float64\<close> that the code only copies and compares (\<open>==\<close>, \<open><\<close>,
  \<open>>=\<close>), never computes with. On the values that are numbers these comparisons are the
  order of the reals, so a price is a \<open>real\<close>; NaN, which is not a price, is left out.
\<close>

type_synonym time = int

text \<open>
  Go's \<open>error\<close> values: the ones \<open>validateArgs\<close> makes with \<open>fmt.Errorf\<close>, and the
  ones the session returns, which the code passes on unread.
\<close>

datatype error = Errorf string | ClientError nat

text \<open>
  Modelled from the spec: package \<open>flights\<close> is not among the sources. Its types carry
  the fields that \<open>cheapoffers.go\<close> and the server read or write; the options bundle
  (travellers, currency, stops, class, trip type, language) is passed on opaquely, its
  enumerations being Go integer constants.
\<close>

record flights_Travelers =
  Adults :: int

record flights_Options =
  Travelers :: flights_Travelers
  Currency :: string
  Stops :: int
  Class :: int
  TripType :: int
  Lang :: string

record flights_Offer =
  StartDate :: time
  ReturnDate :: time
  Price :: real

record flights_FullOffer = flights_Offer +
  SrcAirportCode :: string
  DstAirportCode :: string

record flights_PriceRange =
  Low :: real
  High :: real

record flights_PriceGraphArgs =
  RangeStartDate :: time
  RangeEndDate :: time
  TripLength :: int
  SrcCities :: "string list"
  DstCities :: "string list"
  Options :: flights_Options

record flights_Args =
  Date :: time
  ReturnDate :: time
  SrcCities :: "string list"
  DstCities :: "string list"
  SrcAirports :: "string list"
  DstAirports :: "string list"
  Options :: flights_Options

text \<open>
  Modelled from the spec: the three operations of \<open>*flights.Session\<close> that the engine
  calls. The session answers as a function of the arguments of the call (the context is
  not an argument of the model), with \<open>Inl\<close> for a non-nil \<open>err\<close>.
\<close>

record Session =
  GetPriceGraph :: "flights_PriceGraphArgs \<Rightarrow> error + flights_Offer list"
  GetOffers :: "flights_Args \<Rightarrow> error + (flights_FullOffer list \<times> flights_PriceRange option)"
  SerializeURL :: "flights_Args \<Rightarrow> error + string"

text \<open>The calls issued to the session, recorded so that "no call is made" can be stated.\<close>

datatype call =
    PriceGraphCall flights_PriceGraphArgs
  | OffersCall flights_Args
  | SerializeURLCall flights_Args

record Args =
  RangeStartDate :: time
  RangeEndDate :: time
  TripLengths :: "int list"
  SrcCities :: "string list"
  DstCities :: "string list"
  Options :: flights_Options

record Result =
  StartDate :: time
  ReturnDate :: time
  SrcAirport :: string
  DstAirport :: string
  Price :: real
  TripLength :: int
  ShareableLink :: string

section \<open>validateArgs\<close>

definition validateArgs :: "Args \<Rightarrow> error option" where
  "validateArgs args =
     (if length (TripLengths args) = 0 then
        Some (Errorf ''at least one trip length is required'')
      else if list_ex (\<lambda>l. l \<le> 0) (TripLengths args) then
        Some (Errorf ''trip lengths must be positive'')
      else if Args.RangeEndDate args < Args.RangeStartDate args then
        Some (Errorf ''rangeEndDate must be on or after rangeStartDate'')
      else if length (Args.SrcCities args) = 0 then
        Some (Errorf ''at least one source city is required'')
      else if length (Args.DstCities args) = 0 then
        Some (Errorf ''at least one destination city is required'')
      else None)"

section \<open>One refinement task\<close>

text \<open>The zero value of \<open>flights.FullOffer\<close>, which \<open>var bestOffer\<close> starts from.\<close>

definition zeroFullOffer :: flights_FullOffer where
  "zeroFullOffer =
     \<lparr>flights_Offer.StartDate = 0, flights_Offer.ReturnDate = 0, flights_Offer.Price = 0,
      SrcAirportCode = [], DstAirportCode = []\<rparr>"

text \<open>The body of the loop over \<open>fullOffers\<close>, and the loop.\<close>

definition bestStep :: "flights_FullOffer \<Rightarrow> flights_FullOffer \<Rightarrow> flights_FullOffer" where
  "bestStep bestOffer fullOffer =
     (if flights_Offer.Price fullOffer = 0 then bestOffer
      else if flights_Offer.Price bestOffer = 0
              \<or> flights_Offer.Price fullOffer < flights_Offer.Price bestOffer
      then fullOffer
      else bestOffer)"

definition bestOfferOf :: "flights_FullOffer list \<Rightarrow> flights_FullOffer" where
  "bestOfferOf fullOffers = foldl bestStep zeroFullOffer fullOffers"

text \<open>The arguments of the three calls of a task.\<close>

definition cityArgs :: "Args \<Rightarrow> flights_Offer \<Rightarrow> flights_Args" where
  "cityArgs args offer =
     \<lparr>Date = flights_Offer.StartDate offer,
      flights_Args.ReturnDate = flights_Offer.ReturnDate offer,
      flights_Args.SrcCities = Args.SrcCities args,
      flights_Args.DstCities = Args.DstCities args,
      SrcAirports = [], DstAirports = [],
      flights_Args.Options = Args.Options args\<rparr>"

definition airportArgs :: "Args \<Rightarrow> flights_FullOffer \<Rightarrow> flights_Args" where
  "airportArgs args bestOffer =
     \<lparr>Date = flights_Offer.StartDate bestOffer,
      flights_Args.ReturnDate = flights_Offer.ReturnDate bestOffer,
      flights_Args.SrcCities = [], flights_Args.DstCities = [],
      SrcAirports = [SrcAirportCode bestOffer],
      DstAirports = [DstAirportCode bestOffer],
      flights_Args.Options = Args.Options args\<rparr>"

definition mkResult :: "flights_FullOffer \<Rightarrow> int \<Rightarrow> string \<Rightarrow> Result" where
  "mkResult bestOffer tripLength url =
     \<lparr>Result.StartDate = flights_Offer.StartDate bestOffer,
      Result.ReturnDate = flights_Offer.ReturnDate bestOffer,
      SrcAirport = SrcAirportCode bestOffer,
      DstAirport = DstAirportCode bestOffer,
      Result.Price = flights_Offer.Price bestOffer,
      Result.TripLength = tripLength,
      ShareableLink = url\<rparr>"

text \<open>
  The goroutine started for one price-graph offer. It returns what it sends on
  \<open>resultsCh\<close> (\<open>None\<close> when it returns without sending; \<open>Inl\<close> is
  \<open>resultOrError{err: err}\<close>, \<open>Inr\<close> is \<open>resultOrError{result: ...}\<close>) and the
  calls it has issued, in order.
\<close>

definition refineTask ::
  "Session \<Rightarrow> Args \<Rightarrow> int \<Rightarrow> flights_Offer \<Rightarrow> (error + Result) option \<times> call list" where
  "refineTask session args tripLength offer =
     (case GetOffers session (cityArgs args offer) of
        Inl err \<Rightarrow> (Some (Inl err), [OffersCall (cityArgs args offer)])
      | Inr (fullOffers, _) \<Rightarrow>
          let bestOffer = bestOfferOf fullOffers in
          if flights_Offer.Price bestOffer = 0 then
            (None, [OffersCall (cityArgs args offer)])
          else
            (case GetOffers session (airportArgs args bestOffer) of
               Inl err \<Rightarrow>
                 (Some (Inl err),
                  [OffersCall (cityArgs args offer), OffersCall (airportArgs args bestOffer)])
             | Inr (_, priceRange) \<Rightarrow>
                 (case priceRange of
                    None \<Rightarrow>
                      (None,
                       [OffersCall (cityArgs args offer),
                        OffersCall (airportArgs args bestOffer)])
                  | Some pr \<Rightarrow>
                      if flights_Offer.Price bestOffer \<ge> Low pr then
                        (None,
                         [OffersCall (cityArgs args offer),
                          OffersCall (airportArgs args bestOffer)])
                      else
                        (case SerializeURL session (airportArgs args bestOffer) of
                           Inl err \<Rightarrow>
                             (Some (Inl err),
                              [OffersCall (cityArgs args offer),
                               OffersCall (airportArgs args bestOffer),
                               SerializeURLCall (airportArgs args bestOffer)])
                         | Inr url \<Rightarrow>
                             (Some (Inr (mkResult bestOffer tripLength url)),
                              [OffersCall (cityArgs args offer),
                               OffersCall (airportArgs args bestOffer),
                               SerializeURLCall (airportArgs args bestOffer)])))))"

section \<open>findForTripLength\<close>

text \<open>
  The goroutines run concurrently, so what they send reaches \<open>resultsCh\<close> in an order
  the scheduler decides. The order is a parameter: a list of picks, each taking the
  item at that index among those that have not arrived yet; a pick out of range is
  skipped, and what no pick has taken arrives last, in task order.
\<close>

fun arrive :: "nat list \<Rightarrow> 'a list \<Rightarrow> 'a list" where
  "arrive [] xs = xs"
| "arrive (i # picks) xs =
     (if i < length xs then xs ! i # arrive picks (take i xs @ drop (Suc i) xs)
      else arrive picks xs)"

text \<open>The loop \<open>for item := range resultsCh\<close>, on \<open>results\<close> and \<open>firstErr\<close>.\<close>

fun drain ::
  "(error + Result) list \<Rightarrow> Result list \<Rightarrow> error option \<Rightarrow> Result list \<times> error option" where
  "drain [] results firstErr = (results, firstErr)"
| "drain (Inl err # items) results firstErr =
     drain items results (if firstErr = None then Some err else firstErr)"
| "drain (Inr result # items) results firstErr =
     drain items (results @ [result]) firstErr"

definition priceGraphArgs :: "Args \<Rightarrow> int \<Rightarrow> flights_PriceGraphArgs" where
  "priceGraphArgs args tripLength =
     \<lparr>flights_PriceGraphArgs.RangeStartDate = Args.RangeStartDate args,
      flights_PriceGraphArgs.RangeEndDate = Args.RangeEndDate args,
      flights_PriceGraphArgs.TripLength = tripLength,
      flights_PriceGraphArgs.SrcCities = Args.SrcCities args,
      flights_PriceGraphArgs.DstCities = Args.DstCities args,
      flights_PriceGraphArgs.Options = Args.Options args\<rparr>"

text \<open>What the tasks send, in task order: a task that returns early sends nothing.\<close>

definition sent :: "((error + Result) option \<times> call list) list \<Rightarrow> (error + Result) list" where
  "sent outs = concat (map (\<lambda>out. case fst out of None \<Rightarrow> [] | Some item \<Rightarrow> [item]) outs)"

text \<open>
  The function returns Go's pair \<open>([]Result, error)\<close>, \<open>nil\<close> being \<open>[]\<close> and
  \<open>None\<close>, and the calls issued: the price-graph call, then those of the tasks, listed
  task by task.
\<close>

definition findForTripLength ::
  "Session \<Rightarrow> nat list \<Rightarrow> Args \<Rightarrow> int \<Rightarrow> Result list \<times> error option \<times> call list" where
  "findForTripLength session picks args tripLength =
     (case GetPriceGraph session (priceGraphArgs args tripLength) of
        Inl err \<Rightarrow> ([], Some err, [PriceGraphCall (priceGraphArgs args tripLength)])
      | Inr priceGraphOffers \<Rightarrow>
          let outs = map (refineTask session args tripLength) priceGraphOffers;
              calls = PriceGraphCall (priceGraphArgs args tripLength) # concat (map snd outs);
              (results, firstErr) = drain (arrive picks (sent outs)) [] None
          in (case firstErr of
                Some err \<Rightarrow> ([], Some err, calls)
              | None \<Rightarrow> (results, None, calls)))"

section \<open>Find\<close>

text \<open>The comparator given to \<open>sort.Slice\<close>.\<close>

definition resultLess :: "Result \<Rightarrow> Result \<Rightarrow> bool" where
  "resultLess a b =
     (if Result.Price a = Result.Price b then
        (if Result.StartDate a = Result.StartDate b then
           (if Result.ReturnDate a = Result.ReturnDate b then
              Result.TripLength a < Result.TripLength b
            else Result.ReturnDate a < Result.ReturnDate b)
         else Result.StartDate a < Result.StartDate b)
      else Result.Price a < Result.Price b)"

text \<open>
  \<open>sort.Slice\<close> is the Go standard library's. It is modelled by the insertion sort that
  the library runs on a slice of at most twelve elements: each element in turn moves left
  while it is less than its left neighbour. \<open>sink\<close> works on the sorted
  prefix reversed, its last element first. (On a longer slice the library's quicksort
  is also a sort by \<open>less\<close>, and may leave elements that tie in another order.)
\<close>

fun sink :: "('a \<Rightarrow> 'a \<Rightarrow> bool) \<Rightarrow> 'a \<Rightarrow> 'a list \<Rightarrow> 'a list" where
  "sink lt x [] = [x]"
| "sink lt x (y # ys) = (if lt x y then y # sink lt x ys else x # y # ys)"

definition sort_Slice :: "('a \<Rightarrow> 'a \<Rightarrow> bool) \<Rightarrow> 'a list \<Rightarrow> 'a list" where
  "sort_Slice lt xs = rev (foldl (\<lambda>pre x. sink lt x pre) [] xs)"

text \<open>
  The loop over \<open>args.TripLengths\<close>, on \<open>allResults\<close> and the calls issued so far.
  \<open>scheds\<close> gives the arrival order of each trip length's search in turn (task order once
  the list is used up).
\<close>

fun Find_loop ::
  "Session \<Rightarrow> nat list list \<Rightarrow> Args \<Rightarrow> int list \<Rightarrow> Result list \<Rightarrow> call list
   \<Rightarrow> Result list \<times> error option \<times> call list" where
  "Find_loop session scheds args [] allResults calls = (allResults, None, calls)"
| "Find_loop session scheds args (tripLength # rest) allResults calls =
     (case findForTripLength session (case scheds of [] \<Rightarrow> [] | picks # _ \<Rightarrow> picks)
             args tripLength of
        (partial, Some err, cs) \<Rightarrow> ([], Some err, calls @ cs)
      | (partial, None, cs) \<Rightarrow>
          Find_loop session (tl scheds) args rest (allResults @ partial) (calls @ cs))"

definition Find ::
  "Session \<Rightarrow> nat list list \<Rightarrow> Args \<Rightarrow> Result list \<times> error option \<times> call list" where
  "Find session scheds args =
     (case validateArgs args of
        Some err \<Rightarrow> ([], Some err, [])
      | None \<Rightarrow>
          (case Find_loop session scheds args (TripLengths args) [] [] of
             (allResults, Some err, calls) \<Rightarrow> ([], Some err, calls)
           | (allResults, None, calls) \<Rightarrow> (sort_Slice resultLess allResults, None, calls)))"

section \<open>Reading an outcome\<close>

text \<open>The three components of what \<open>findForTripLength\<close> and \<open>Find\<close> return.\<close>

abbreviation resultsOf :: "Result list \<times> error option \<times> call list \<Rightarrow> Result list" where
  "resultsOf out \<equiv> fst out"

abbreviation errOf :: "Result list \<times> error option \<times> call list \<Rightarrow> error option" where
  "errOf out \<equiv> fst (snd out)"

abbreviation callsOf :: "Result list \<times> error option \<times> call list \<Rightarrow> call list" where
  "callsOf out \<equiv> snd (snd out)"

text \<open>What \<open>drain\<close> computes: the first error among the items, and the results.\<close>

fun firstLeft :: "('e + 'r) list \<Rightarrow> 'e option" where
  "firstLeft [] = None"
| "firstLeft (Inl e # items) = Some e"
| "firstLeft (Inr r # items) = firstLeft items"

fun rights :: "('e + 'r) list \<Rightarrow> 'r list" where
  "rights [] = []"
| "rights (Inl e # items) = rights items"
| "rights (Inr r # items) = r # rights items"

definition taskItems :: "Session \<Rightarrow> Args \<Rightarrow> int \<Rightarrow> flights_Offer list \<Rightarrow> (error + Result) list" where
  "taskItems session args tripLength offers = sent (map (refineTask session args tripLength) offers)"

text \<open>
  The search that \<open>Find_loop\<close> runs for the trip length at position \<open>k\<close>, under the
  arrival order that \<open>scheds\<close> gives to that position.
\<close>

definition picksFor :: "nat list list \<Rightarrow> nat \<Rightarrow> nat list" where
  "picksFor scheds k = (if k < length scheds then scheds ! k else [])"

definition search ::
  "Session \<Rightarrow> nat list list \<Rightarrow> Args \<Rightarrow> int list \<Rightarrow> nat \<Rightarrow> Result list \<times> error option \<times> call list" where
  "search session scheds args ts k = findForTripLength session (picksFor scheds k) args (ts ! k)"

definition isPriceGraphCall :: "call \<Rightarrow> bool" where
  "isPriceGraphCall c = (case c of PriceGraphCall _ \<Rightarrow> True | _ \<Rightarrow> False)"

section \<open>The properties as the specification words them\<close>

text \<open>
  The order of the specification: ascending by price, ties broken by departure date, then
  by return date, then by trip length.
\<close>

definition rank_le :: "Result \<Rightarrow> Result \<Rightarrow> bool" where
  "rank_le a b \<longleftrightarrow>
     Result.Price a < Result.Price b \<or>
     Result.Price a = Result.Price b \<and>
       (Result.StartDate a < Result.StartDate b \<or>
        Result.StartDate a = Result.StartDate b \<and>
          (Result.ReturnDate a < Result.ReturnDate b \<or>
           Result.ReturnDate a = Result.ReturnDate b \<and>
             Result.TripLength a \<le> Result.TripLength b))"

text \<open>The query for the baseline of a result's exact airport pair and dates.\<close>

definition resultArgs :: "Args \<Rightarrow> Result \<Rightarrow> flights_Args" where
  "resultArgs args r =
     \<lparr>Date = Result.StartDate r,
      flights_Args.ReturnDate = Result.ReturnDate r,
      flights_Args.SrcCities = [], flights_Args.DstCities = [],
      SrcAirports = [SrcAirport r],
      DstAirports = [DstAirport r],
      flights_Args.Options = Args.Options args\<rparr>"

text \<open>
  A candidate with no qualifying data: its detailed offers arrive and none has a price
  other than zero, or the baseline of the winning offer arrives and is absent, or it
  arrives and the winning price is not below its low bound.
\<close>

definition noQualifyingData :: "Session \<Rightarrow> Args \<Rightarrow> flights_Offer \<Rightarrow> bool" where
  "noQualifyingData session args offer =
     (case GetOffers session (cityArgs args offer) of
        Inl err \<Rightarrow> False
      | Inr (fullOffers, _) \<Rightarrow>
          list_all (\<lambda>f. flights_Offer.Price f = 0) fullOffers
          \<or> (case GetOffers session (airportArgs args (bestOfferOf fullOffers)) of
                Inl err \<Rightarrow> False
              | Inr (_, None) \<Rightarrow> True
              | Inr (_, Some pr) \<Rightarrow> flights_Offer.Price (bestOfferOf fullOffers) \<ge> Low pr))"

section \<open>Sessions with fixed answers\<close>

text \<open>Dates are day numbers. Every session answers a baseline query with an empty offer list.\<close>

definition stubOptions :: flights_Options where
  "stubOptions = \<lparr>Travelers = \<lparr>Adults = 1\<rparr>, Currency = ''USD'', Stops = 0, Class = 0,
                  TripType = 0, Lang = ''en''\<rparr>"

definition stubArgs :: "int list \<Rightarrow> Args" where
  "stubArgs tripLengths =
     \<lparr>Args.RangeStartDate = 0, Args.RangeEndDate = 2, TripLengths = tripLengths,
      Args.SrcCities = [''San Francisco''], Args.DstCities = [''New York''],
      Args.Options = stubOptions\<rparr>"

definition stubOffer :: "time \<Rightarrow> time \<Rightarrow> string \<Rightarrow> real \<Rightarrow> flights_FullOffer" where
  "stubOffer start ret src price =
     \<lparr>flights_Offer.StartDate = start, flights_Offer.ReturnDate = ret,
      flights_Offer.Price = price, SrcAirportCode = src, DstAirportCode = ''JFK''\<rparr>"

definition sample :: "time \<Rightarrow> time \<Rightarrow> flights_Offer" where
  "sample start ret =
     \<lparr>flights_Offer.StartDate = start, flights_Offer.ReturnDate = ret, flights_Offer.Price = 480\<rparr>"

definition stubURL :: string where
  "stubURL = ''https://flights.example/booking''"

text \<open>
  One candidate per trip length; the price graph fails for trip length 14. The detailed
  offers are dated a day after the candidate. Baseline 600 to 900.
\<close>

definition stubSession :: Session where
  "stubSession =
     \<lparr>GetPriceGraph = (\<lambda>a. if flights_PriceGraphArgs.TripLength a = 14 then Inl (ClientError 1)
                          else Inr [sample 0 (flights_PriceGraphArgs.TripLength a)]),
      GetOffers = (\<lambda>a. if SrcAirports a = [] then
                          (if flights_Args.ReturnDate a = 7
                           then Inr ([stubOffer 1 8 ''SFO'' 500, stubOffer 1 8 ''SJC'' 0], None)
                           else Inr ([stubOffer 1 11 ''SFO'' 300], None))
                        else Inr ([], Some \<lparr>Low = 600, High = 900\<rparr>)),
      SerializeURL = (\<lambda>a. Inr stubURL)\<rparr>"

text \<open>Detailed offers with negative prices. Baseline 10 to 20.\<close>

definition negSession :: Session where
  "negSession =
     \<lparr>GetPriceGraph = (\<lambda>a. Inr [sample 0 (flights_PriceGraphArgs.TripLength a)]),
      GetOffers = (\<lambda>a. if SrcAirports a = [] then
                          (if flights_Args.ReturnDate a = 7
                           then Inr ([stubOffer 0 7 ''SFO'' (- 5)], None)
                           else Inr ([stubOffer 0 10 ''SFO'' 0, stubOffer 0 10 ''SJC'' (- 20)], None))
                        else Inr ([], Some \<lparr>Low = 10, High = 20\<rparr>)),
      SerializeURL = (\<lambda>a. Inr stubURL)\<rparr>"

text \<open>
  Three candidates: one with a zero-priced offer only, one whose baseline is absent, one
  whose price of 700 does not beat the low bound of 600.
\<close>

definition dullSession :: Session where
  "dullSession =
     \<lparr>GetPriceGraph = (\<lambda>a. Inr [sample 0 7, sample 1 8, sample 2 9]),
      GetOffers = (\<lambda>a. if SrcAirports a = [] then
                          (if Date a = 0 then Inr ([stubOffer 0 7 ''SFO'' 0], None)
                           else if Date a = 1 then Inr ([stubOffer 1 8 ''SFO'' 500], None)
                           else Inr ([stubOffer 2 9 ''SFO'' 700], None))
                        else if Date a = 1 then Inr ([], None)
                        else Inr ([], Some \<lparr>Low = 600, High = 900\<rparr>)),
      SerializeURL = (\<lambda>a. Inr stubURL)\<rparr>"

text \<open>
  Two candidates whose winning offers have the same dates and the same price of 500 and
  leave from different airports.
\<close>

definition tieSession :: Session where
  "tieSession =
     \<lparr>GetPriceGraph = (\<lambda>a. Inr [sample 0 7, sample 1 8]),
      GetOffers = (\<lambda>a. if SrcAirports a = [] then
                          (if Date a = 0 then Inr ([stubOffer 0 7 ''SFO'' 500], None)
                           else Inr ([stubOffer 0 7 ''SJC'' 500], None))
                        else Inr ([], Some \<lparr>Low = 600, High = 900\<rparr>)),
      SerializeURL = (\<lambda>a. Inr stubURL)\<rparr>"

text \<open>Two candidates whose winning offers cost 500 and 450.\<close>

definition pairSession :: Session where
  "pairSession =
     \<lparr>GetPriceGraph = (\<lambda>a. Inr [sample 0 7, sample 1 8]),
      GetOffers = (\<lambda>a. if SrcAirports a = [] then
                          (if Date a = 0 then Inr ([stubOffer 0 7 ''SFO'' 500], None)
                           else Inr ([stubOffer 1 8 ''SFO'' 450], None))
                        else Inr ([], Some \<lparr>Low = 600, High = 900\<rparr>)),
      SerializeURL = (\<lambda>a. Inr stubURL)\<rparr>"

lemmas eval_defs =
  Find_def validateArgs_def stubArgs_def findForTripLength_def
  priceGraphArgs_def refineTask_def cityArgs_def airportArgs_def bestOfferOf_def bestStep_def
  zeroFullOffer_def stubOffer_def sent_def sort_Slice_def mkResult_def resultLess_def
  sample_def stubURL_def

section \<open>The loop that selects the best offer\<close>

lemma Min_insert_min:
  fixes a :: "'a::linorder"
  assumes "finite S"
  shows "Min (insert (min a b) S) = Min (insert a (insert b S))"
proof (cases "S = {}")
  case True
  then show ?thesis by simp
next
  case False
  with assms show ?thesis by (simp add: min.assoc)
qed

lemma bestStep_cases: "bestStep b f = b \<or> bestStep b f = f"
  by (simp add: bestStep_def)

lemma foldl_bestStep_all_zero:
  "\<forall>f\<in>set fs. flights_Offer.Price f = 0 \<Longrightarrow> foldl bestStep b fs = b"
  by (induction fs arbitrary: b) (simp_all add: bestStep_def)

lemma foldl_bestStep_mem: "foldl bestStep b fs = b \<or> foldl bestStep b fs \<in> set fs"
proof (induction fs arbitrary: b)
  case Nil
  then show ?case by simp
next
  case (Cons f fs)
  from Cons.IH [of "bestStep b f"] bestStep_cases [of b f] show ?case by auto
qed

lemma foldl_bestStep_price_from:
  "flights_Offer.Price b \<noteq> 0 \<Longrightarrow>
   flights_Offer.Price (foldl bestStep b fs) =
     Min (insert (flights_Offer.Price b)
            (flights_Offer.Price ` {f \<in> set fs. flights_Offer.Price f \<noteq> 0}))"
proof (induction fs arbitrary: b)
  case Nil
  then show ?case by simp
next
  case (Cons f fs)
  let ?S = "flights_Offer.Price ` {g \<in> set fs. flights_Offer.Price g \<noteq> 0}"
  have fin: "finite ?S" by simp
  show ?case
  proof (cases "flights_Offer.Price f = 0")
    case True
    then have "bestStep b f = b" by (simp add: bestStep_def)
    moreover have "{g \<in> set (f # fs). flights_Offer.Price g \<noteq> 0}
                 = {g \<in> set fs. flights_Offer.Price g \<noteq> 0}"
      using True by auto
    ultimately show ?thesis using Cons.IH [OF Cons.prems] by simp
  next
    case False
    have set_eq: "flights_Offer.Price ` {g \<in> set (f # fs). flights_Offer.Price g \<noteq> 0}
                 = insert (flights_Offer.Price f) ?S"
      using False by auto
    have nz: "flights_Offer.Price (bestStep b f) \<noteq> 0"
      using False Cons.prems by (simp add: bestStep_def)
    have pr: "flights_Offer.Price (bestStep b f)
                = min (flights_Offer.Price b) (flights_Offer.Price f)"
      using False Cons.prems by (simp add: bestStep_def min_def)
    have "flights_Offer.Price (foldl bestStep b (f # fs))
            = Min (insert (min (flights_Offer.Price b) (flights_Offer.Price f)) ?S)"
      using Cons.IH [OF nz] pr by simp
    also have "\<dots> = Min (insert (flights_Offer.Price b) (insert (flights_Offer.Price f) ?S))"
      by (rule Min_insert_min [OF fin])
    finally show ?thesis using set_eq by simp
  qed
qed

lemma bestOfferOf_price:
  assumes "\<exists>f\<in>set fs. flights_Offer.Price f \<noteq> 0"
  shows "flights_Offer.Price (bestOfferOf fs) =
           Min (flights_Offer.Price ` {f \<in> set fs. flights_Offer.Price f \<noteq> 0})"
  using assms
proof (induction fs)
  case Nil
  then show ?case by simp
next
  case (Cons f fs)
  show ?case
  proof (cases "flights_Offer.Price f = 0")
    case True
    then have "bestStep zeroFullOffer f = zeroFullOffer" by (simp add: bestStep_def)
    moreover have "{g \<in> set (f # fs). flights_Offer.Price g \<noteq> 0}
                 = {g \<in> set fs. flights_Offer.Price g \<noteq> 0}"
      using True by auto
    moreover have "\<exists>g\<in>set fs. flights_Offer.Price g \<noteq> 0" using Cons.prems True by auto
    ultimately show ?thesis using Cons.IH by (simp add: bestOfferOf_def)
  next
    case False
    then have st: "bestStep zeroFullOffer f = f" by (simp add: bestStep_def zeroFullOffer_def)
    have set_eq: "flights_Offer.Price ` {g \<in> set (f # fs). flights_Offer.Price g \<noteq> 0}
                 = insert (flights_Offer.Price f)
                     (flights_Offer.Price ` {g \<in> set fs. flights_Offer.Price g \<noteq> 0})"
      using False by auto
    show ?thesis
      using foldl_bestStep_price_from [OF False, of fs] st set_eq
      by (simp add: bestOfferOf_def)
  qed
qed

lemma bestOfferOf_zero_iff:
  "flights_Offer.Price (bestOfferOf fs) = 0 \<longleftrightarrow> (\<forall>f\<in>set fs. flights_Offer.Price f = 0)"
proof
  assume z: "flights_Offer.Price (bestOfferOf fs) = 0"
  show "\<forall>f\<in>set fs. flights_Offer.Price f = 0"
  proof (rule ccontr)
    assume "\<not> (\<forall>f\<in>set fs. flights_Offer.Price f = 0)"
    then have ex: "\<exists>f\<in>set fs. flights_Offer.Price f \<noteq> 0" by simp
    let ?S = "flights_Offer.Price ` {f \<in> set fs. flights_Offer.Price f \<noteq> 0}"
    have "?S \<noteq> {}" using ex by auto
    then have "Min ?S \<in> ?S" by (intro Min_in) simp_all
    then have "Min ?S \<noteq> 0" by auto
    with bestOfferOf_price [OF ex] z show False by simp
  qed
next
  assume "\<forall>f\<in>set fs. flights_Offer.Price f = 0"
  then show "flights_Offer.Price (bestOfferOf fs) = 0"
    by (simp add: bestOfferOf_def foldl_bestStep_all_zero zeroFullOffer_def)
qed

lemma bestOfferOf_mem:
  "flights_Offer.Price (bestOfferOf fs) \<noteq> 0 \<Longrightarrow> bestOfferOf fs \<in> set fs"
  using foldl_bestStep_mem [of zeroFullOffer fs]
  by (auto simp: bestOfferOf_def zeroFullOffer_def)

section \<open>The channel: arrival order and draining\<close>

lemma drain_eq:
  "drain items results firstErr =
     (results @ rights items, if firstErr = None then firstLeft items else firstErr)"
  by (induction items results firstErr rule: drain.induct) auto

lemma firstLeft_None_iff: "firstLeft items = None \<longleftrightarrow> (\<forall>e. Inl e \<notin> set items)"
  by (induction items rule: firstLeft.induct) auto

lemma firstLeft_mem: "firstLeft items = Some e \<Longrightarrow> Inl e \<in> set items"
  by (induction items rule: firstLeft.induct) auto

lemma set_rights: "set (rights items) = {r. Inr r \<in> set items}"
  by (induction items rule: rights.induct) auto

lemma mset_rights_eq: "mset (rights items) = image_mset projr (filter_mset (\<lambda>x. \<not> isl x) (mset items))"
  by (induction items rule: rights.induct) auto

lemma length_rights: "length (rights items) \<le> length items"
  by (induction items rule: rights.induct) auto

text \<open>
  Whatever the picks, \<open>arrive\<close> gives a permutation of what was sent, and every
  permutation is the arrival order of some picks.
\<close>

lemma mset_remove_nth:
  assumes "i < length xs"
  shows "add_mset (xs ! i) (mset (take i xs) + mset (drop (Suc i) xs)) = mset xs"
proof -
  have "mset xs = mset (take i xs @ xs ! i # drop (Suc i) xs)"
    using id_take_nth_drop [OF assms] by simp
  then show ?thesis by simp
qed

lemma mset_arrive: "mset (arrive picks xs) = mset xs"
proof (induction picks xs rule: arrive.induct)
  case (1 xs)
  then show ?case by simp
next
  case (2 i picks xs)
  then show ?case by (simp add: mset_remove_nth)
qed

lemma set_arrive: "set (arrive picks xs) = set xs"
  using mset_arrive [of picks xs] by (metis set_mset_mset)

lemma length_arrive: "length (arrive picks xs) = length xs"
  using mset_arrive [of picks xs] by (metis size_mset)

lemma arrive_Nil: "arrive picks [] = []"
  by (induction picks) simp_all

lemma arrive_onto: "mset ys = mset xs \<Longrightarrow> \<exists>picks. arrive picks xs = ys"
proof (induction ys arbitrary: xs)
  case Nil
  then have "xs = []" by simp
  then have "arrive [] xs = []" by simp
  then show ?case by blast
next
  case (Cons y ys)
  then have "y \<in> set xs" by (metis list.set_intros(1) set_mset_mset)
  then obtain i where i: "i < length xs" "xs ! i = y" by (auto simp: in_set_conv_nth)
  let ?rest = "take i xs @ drop (Suc i) xs"
  have "add_mset y (mset ?rest) = mset xs" using mset_remove_nth [OF i(1)] i(2) by simp
  with Cons.prems have "add_mset y (mset ys) = add_mset y (mset ?rest)" by simp
  then have "mset ys = mset ?rest" by (simp only: add_mset_add_mset_same_iff)
  from Cons.IH [OF this] obtain picks where "arrive picks ?rest = ys" by blast
  then have "arrive (i # picks) xs = y # ys" using i by simp
  then show ?case by blast
qed

lemma rights_arrive: "mset (rights (arrive picks items)) = mset (rights items)"
  by (simp add: mset_rights_eq mset_arrive)

lemma firstLeft_arrive_None:
  "firstLeft (arrive picks items) = None \<longleftrightarrow> firstLeft items = None"
  by (simp add: firstLeft_None_iff set_arrive)

lemma length_sent: "length (sent outs) \<le> length outs"
  by (induction outs) (auto simp: sent_def split: option.splits)

lemma set_sent: "set (sent outs) = {item. \<exists>out\<in>set outs. fst out = Some item}"
  by (induction outs) (auto simp: sent_def split: option.splits)

lemma sent_all_None: "\<forall>out\<in>set outs. fst out = None \<Longrightarrow> sent outs = []"
  by (induction outs) (simp_all add: sent_def)

text \<open>
  The draining loop keeps the first error in arrival order: the items before it are
  results, and whatever arrives after it, errors included, does not change it.
\<close>

lemma drain_first_error:
  assumes "drain items [] None = (results, Some err)"
  shows "\<exists>before after. items = before @ Inl err # after \<and> (\<forall>e. Inl e \<notin> set before)"
proof -
  from assms have "firstLeft items = Some err" by (simp add: drain_eq)
  then show ?thesis
  proof (induction items rule: firstLeft.induct)
    case 1
    then show ?case by simp
  next
    case (2 e items)
    then have "Inl e # items = [] @ Inl err # items" by simp
    then show ?case by (metis empty_iff list.set(1))
  next
    case (3 r items)
    then obtain before after where
      "items = before @ Inl err # after" "\<forall>e. Inl e \<notin> set before" by auto
    then have "Inr r # items = (Inr r # before) @ Inl err # after"
      "\<forall>e. Inl e \<notin> set (Inr r # before)" by auto
    then show ?case by blast
  qed
qed

section \<open>Sorting\<close>

lemma mset_sink: "mset (sink lt x ys) = add_mset x (mset ys)"
  by (induction ys) auto

lemma mset_foldl_sink: "mset (foldl (\<lambda>pre x. sink lt x pre) acc xs) = mset acc + mset xs"
  by (induction xs arbitrary: acc) (auto simp: mset_sink)

lemma mset_sort_Slice: "mset (sort_Slice lt xs) = mset xs"
  by (simp add: sort_Slice_def mset_foldl_sink)

lemma set_sort_Slice: "set (sort_Slice lt xs) = set xs"
  using mset_sort_Slice [of lt xs] by (metis set_mset_mset)

lemma not_resultLess: "\<not> resultLess b a \<longleftrightarrow> rank_le a b"
  by (auto simp: resultLess_def rank_le_def)

lemma rank_le_trans: "rank_le a b \<Longrightarrow> rank_le b c \<Longrightarrow> rank_le a c"
  unfolding rank_le_def by (elim disjE conjE) simp_all

lemma rank_le_total: "rank_le a b \<or> rank_le b a"
  unfolding rank_le_def by linarith

lemma rank_le_both:
  "rank_le a b \<and> rank_le b a \<longleftrightarrow>
     Result.Price a = Result.Price b \<and> Result.StartDate a = Result.StartDate b
     \<and> Result.ReturnDate a = Result.ReturnDate b \<and> Result.TripLength a = Result.TripLength b"
  unfolding rank_le_def by auto

lemma sorted_sink:
  "sorted_wrt (\<lambda>a b. rank_le b a) pre \<Longrightarrow> sorted_wrt (\<lambda>a b. rank_le b a) (sink resultLess x pre)"
proof (induction pre)
  case Nil
  then show ?case by simp
next
  case (Cons y ys)
  show ?case
  proof (cases "resultLess x y")
    case True
    then have xy: "rank_le x y" using not_resultLess [of x y] rank_le_total [of x y] by blast
    have "\<forall>z\<in>set (sink resultLess x ys). rank_le z y"
    proof
      fix z assume "z \<in> set (sink resultLess x ys)"
      then have "z \<in># add_mset x (mset ys)" by (metis mset_sink set_mset_mset)
      then show "rank_le z y" using xy Cons.prems by auto
    qed
    with Cons True show ?thesis by simp
  next
    case False
    then have yx: "rank_le y x" by (simp add: not_resultLess)
    have "\<forall>z\<in>set ys. rank_le z x"
      using Cons.prems yx rank_le_trans by auto
    with False yx Cons.prems show ?thesis by simp
  qed
qed

lemma sorted_foldl_sink:
  "sorted_wrt (\<lambda>a b. rank_le b a) acc \<Longrightarrow>
   sorted_wrt (\<lambda>a b. rank_le b a) (foldl (\<lambda>pre x. sink resultLess x pre) acc xs)"
  by (induction xs arbitrary: acc) (simp_all add: sorted_sink)

lemma sorted_sort_Slice: "sorted_wrt rank_le (sort_Slice resultLess xs)"
  using sorted_foldl_sink [of "[]" xs] by (simp add: sort_Slice_def sorted_wrt_rev)

lemma sorted_mset_unique:
  assumes "sorted_wrt rank_le xs" "sorted_wrt rank_le ys" "mset xs = mset ys"
    and "\<forall>a\<in>set xs. \<forall>b\<in>set xs. rank_le a b \<and> rank_le b a \<longrightarrow> a = b"
  shows "xs = ys"
  using assms
proof (induction xs arbitrary: ys)
  case Nil
  then show ?case by simp
next
  case (Cons x xs)
  from Cons.prems(3) obtain y ys' where ys: "ys = y # ys'" by (cases ys) auto
  have sets: "set (x # xs) = set (y # ys')"
    using Cons.prems(3) ys by (metis set_mset_mset)
  have xy: "x = y"
  proof (rule ccontr)
    assume ne: "x \<noteq> y"
    with sets have "x \<in> set ys'" "y \<in> set xs" by auto
    then have "rank_le y x" "rank_le x y" using Cons.prems(1,2) ys by auto
    moreover have "x \<in> set (x # xs)" "y \<in> set (x # xs)" using sets by auto
    ultimately have "x = y" using Cons.prems(4) by blast
    with ne show False by simp
  qed
  have m: "mset xs = mset ys'" using Cons.prems(3) ys xy by simp
  have s: "sorted_wrt rank_le xs" "sorted_wrt rank_le ys'"
    using Cons.prems(1,2) ys by simp_all
  have u: "\<forall>a\<in>set xs. \<forall>b\<in>set xs. rank_le a b \<and> rank_le b a \<longrightarrow> a = b"
    using Cons.prems(4) by simp
  have "xs = ys'" by (rule Cons.IH [OF s m u])
  with xy ys show ?case by simp
qed

section \<open>One task\<close>

lemma resultArgs_mkResult: "resultArgs args (mkResult bestOffer t url) = airportArgs args bestOffer"
  by (simp add: resultArgs_def mkResult_def airportArgs_def)

lemma refineTask_emits:
  assumes "fst (refineTask session args t offer) = Some (Inr r)"
  obtains fullOffers x y pr url where
    "GetOffers session (cityArgs args offer) = Inr (fullOffers, x)"
    "flights_Offer.Price (bestOfferOf fullOffers) \<noteq> 0"
    "GetOffers session (airportArgs args (bestOfferOf fullOffers)) = Inr (y, Some pr)"
    "flights_Offer.Price (bestOfferOf fullOffers) < Low pr"
    "SerializeURL session (airportArgs args (bestOfferOf fullOffers)) = Inr url"
    "r = mkResult (bestOfferOf fullOffers) t url"
    "snd (refineTask session args t offer) =
       [OffersCall (cityArgs args offer),
        OffersCall (airportArgs args (bestOfferOf fullOffers)),
        SerializeURLCall (airportArgs args (bestOfferOf fullOffers))]"
  using assms unfolding refineTask_def
  by (auto simp: Let_def split: sum.splits prod.splits option.splits if_splits)

lemma refineTask_no_price_graph_call:
  "filter isPriceGraphCall (snd (refineTask session args t offer)) = []"
  unfolding refineTask_def
  by (auto simp: Let_def isPriceGraphCall_def split: sum.splits prod.splits option.splits)

lemma noQualifyingData_refineTask:
  "noQualifyingData session args offer \<Longrightarrow> fst (refineTask session args t offer) = None"
  unfolding noQualifyingData_def refineTask_def
  by (auto simp: Let_def list_all_iff bestOfferOf_zero_iff
           split: sum.splits prod.splits option.splits)

section \<open>One trip length\<close>

lemma findForTripLength_Inl:
  "GetPriceGraph session (priceGraphArgs args t) = Inl e \<Longrightarrow>
   findForTripLength session picks args t = ([], Some e, [PriceGraphCall (priceGraphArgs args t)])"
  by (simp add: findForTripLength_def)

lemma findForTripLength_Inr:
  "GetPriceGraph session (priceGraphArgs args t) = Inr offers \<Longrightarrow>
   findForTripLength session picks args t =
     (case firstLeft (arrive picks (taskItems session args t offers)) of
        Some e \<Rightarrow> []
      | None \<Rightarrow> rights (arrive picks (taskItems session args t offers)),
      firstLeft (arrive picks (taskItems session args t offers)),
      PriceGraphCall (priceGraphArgs args t)
        # concat (map (\<lambda>offer. snd (refineTask session args t offer)) offers))"
  by (simp add: findForTripLength_def drain_eq taskItems_def Let_def comp_def split: option.splits)

lemma findForTripLength_err_indep:
  "fst (snd (findForTripLength session picks args t)) = None \<longleftrightarrow>
   fst (snd (findForTripLength session picks' args t)) = None"
  by (cases "GetPriceGraph session (priceGraphArgs args t)")
     (simp_all add: findForTripLength_Inl findForTripLength_Inr firstLeft_arrive_None)

lemma findForTripLength_mset_indep:
  "mset (fst (findForTripLength session picks args t)) = mset (fst (findForTripLength session picks' args t))"
proof (cases "GetPriceGraph session (priceGraphArgs args t)")
  case (Inl e)
  then show ?thesis by (simp add: findForTripLength_Inl)
next
  case (Inr offers)
  show ?thesis
  proof (cases "firstLeft (taskItems session args t offers)")
    case None
    then have "firstLeft (arrive picks (taskItems session args t offers)) = None"
      "firstLeft (arrive picks' (taskItems session args t offers)) = None"
      by (simp_all add: firstLeft_arrive_None)
    then show ?thesis by (simp add: findForTripLength_Inr [OF Inr] rights_arrive)
  next
    case (Some e)
    then have "firstLeft (arrive picks (taskItems session args t offers)) \<noteq> None"
      "firstLeft (arrive picks' (taskItems session args t offers)) \<noteq> None"
      by (simp_all add: firstLeft_arrive_None)
    then show ?thesis by (auto simp: findForTripLength_Inr [OF Inr])
  qed
qed

lemma findForTripLength_origin:
  assumes "r \<in> set (fst (findForTripLength session picks args t))"
  shows "\<exists>offers offer. GetPriceGraph session (priceGraphArgs args t) = Inr offers
           \<and> offer \<in> set offers
           \<and> fst (refineTask session args t offer) = Some (Inr r)
           \<and> set (snd (refineTask session args t offer))
                \<subseteq> set (snd (snd (findForTripLength session picks args t)))"
proof (cases "GetPriceGraph session (priceGraphArgs args t)")
  case (Inl e)
  with assms show ?thesis by (simp add: findForTripLength_Inl)
next
  case (Inr offers)
  from assms have "r \<in> set (rights (arrive picks (taskItems session args t offers)))"
    by (auto simp: findForTripLength_Inr [OF Inr] split: option.splits)
  then have "Inr r \<in> set (taskItems session args t offers)"
    by (simp add: set_rights set_arrive)
  then obtain offer where "offer \<in> set offers" "fst (refineTask session args t offer) = Some (Inr r)"
    by (auto simp: taskItems_def set_sent)
  then show ?thesis using Inr by (auto simp: findForTripLength_Inr [OF Inr])
qed

lemma findForTripLength_length:
  "length (fst (findForTripLength session picks args t)) \<le>
     (case GetPriceGraph session (priceGraphArgs args t) of Inl e \<Rightarrow> 0 | Inr offers \<Rightarrow> length offers)"
proof (cases "GetPriceGraph session (priceGraphArgs args t)")
  case (Inl e)
  then show ?thesis by (simp add: findForTripLength_Inl)
next
  case (Inr offers)
  have "length (rights (arrive picks (taskItems session args t offers))) \<le> length offers"
    using length_rights [of "arrive picks (taskItems session args t offers)"]
      length_sent [of "map (refineTask session args t) offers"]
    by (simp add: length_arrive taskItems_def)
  then show ?thesis using Inr by (simp add: findForTripLength_Inr [OF Inr] split: option.splits)
qed

lemma findForTripLength_one_price_graph_call:
  "length (filter isPriceGraphCall (callsOf (findForTripLength session picks args t))) = 1"
proof (cases "GetPriceGraph session (priceGraphArgs args t)")
  case (Inl e)
  then show ?thesis by (simp add: findForTripLength_Inl isPriceGraphCall_def)
next
  case (Inr offers)
  have "filter isPriceGraphCall
          (concat (map (\<lambda>offer. snd (refineTask session args t offer)) offers)) = []"
    by (induction offers) (simp_all add: refineTask_no_price_graph_call)
  then show ?thesis by (simp add: findForTripLength_Inr [OF Inr] isPriceGraphCall_def)
qed

section \<open>The loop over the trip lengths\<close>

lemma picksFor_0: "(case scheds of [] \<Rightarrow> [] | picks # _ \<Rightarrow> picks) = picksFor scheds 0"
  by (cases scheds) (simp_all add: picksFor_def)

lemma picksFor_tl: "picksFor (tl scheds) k = picksFor scheds (Suc k)"
  by (cases scheds) (simp_all add: picksFor_def)

lemma search_Cons_Suc: "search session scheds args (t # ts) (Suc k) = search session (tl scheds) args ts k"
  by (simp add: search_def picksFor_tl)

lemma map_upt_Suc_shift: "map f [0..<Suc k] = f 0 # map (\<lambda>j. f (Suc j)) [0..<k]"
  by (simp add: upt_conv_Cons map_Suc_upt [symmetric] comp_def del: upt_Suc)

lemma concat_all_Nil: "\<forall>j\<in>set js. f j = [] \<Longrightarrow> concat (map f js) = []"
  by (induction js) simp_all

lemma mset_concat_cong:
  "\<forall>j\<in>set js. mset (f j) = mset (g j) \<Longrightarrow> mset (concat (map f js)) = mset (concat (map g js))"
  by (induction js) simp_all

lemma search_err_indep:
  "errOf (search session scheds args ts j) = None \<longleftrightarrow> errOf (search session scheds' args ts j) = None"
  unfolding search_def by (rule findForTripLength_err_indep)

lemma search_mset_indep:
  "mset (resultsOf (search session scheds args ts j)) = mset (resultsOf (search session scheds' args ts j))"
  unfolding search_def by (rule findForTripLength_mset_indep)

lemma count_price_graph_calls:
  "length (filter isPriceGraphCall
     (concat (map (\<lambda>j. callsOf (search session scheds args ts j)) js))) = length js"
  by (induction js) (simp_all add: search_def findForTripLength_one_price_graph_call)

lemma Find_loop_fail_at:
  assumes "k < length ts"
    and "\<forall>j<k. fst (snd (search session scheds args ts j)) = None"
    and "fst (snd (search session scheds args ts k)) = Some e"
  shows "Find_loop session scheds args ts allResults calls =
           ([], Some e,
            calls @ concat (map (\<lambda>j. snd (snd (search session scheds args ts j))) [0..<Suc k]))"
  using assms
proof (induction ts arbitrary: k scheds allResults calls)
  case Nil
  then show ?case by simp
next
  case (Cons t ts)
  obtain partial err cs where s0: "search session scheds args (t # ts) 0 = (partial, err, cs)"
    by (cases "search session scheds args (t # ts) 0") auto
  then have f0: "findForTripLength session (case scheds of [] \<Rightarrow> [] | picks # _ \<Rightarrow> picks) args t
                  = (partial, err, cs)"
    by (simp add: search_def picksFor_0)
  show ?case
  proof (cases k)
    case 0
    with Cons.prems s0 have "err = Some e" by simp
    with f0 s0 0 show ?thesis by simp
  next
    case (Suc k')
    with Cons.prems s0 have none: "err = None" by auto
    have k': "k' < length ts" using Cons.prems Suc by simp
    have ok: "\<forall>j<k'. fst (snd (search session (tl scheds) args ts j)) = None"
    proof (intro allI impI)
      fix j assume "j < k'"
      then have "Suc j < k" using Suc by simp
      with Cons.prems(2) have "fst (snd (search session scheds args (t # ts) (Suc j))) = None"
        by blast
      then show "fst (snd (search session (tl scheds) args ts j)) = None"
        by (simp add: search_Cons_Suc)
    qed
    have ek: "fst (snd (search session (tl scheds) args ts k')) = Some e"
      using Cons.prems(3) Suc by (simp add: search_Cons_Suc)
    have "Find_loop session scheds args (t # ts) allResults calls
            = Find_loop session (tl scheds) args ts (allResults @ partial) (calls @ cs)"
      using f0 none by simp
    also have "\<dots> = ([], Some e,
         (calls @ cs) @ concat (map (\<lambda>j. snd (snd (search session (tl scheds) args ts j))) [0..<Suc k']))"
      by (rule Cons.IH [OF k' ok ek])
    also have "\<dots> = ([], Some e,
         calls @ concat (map (\<lambda>j. snd (snd (search session scheds args (t # ts) j))) [0..<Suc k]))"
      unfolding Suc
      by (subst (2) map_upt_Suc_shift) (simp add: s0 search_Cons_Suc del: upt_Suc)
    finally show ?thesis .
  qed
qed

lemma Find_loop_ok:
  assumes "\<forall>j<length ts. fst (snd (search session scheds args ts j)) = None"
  shows "Find_loop session scheds args ts allResults calls =
           (allResults @ concat (map (\<lambda>j. fst (search session scheds args ts j)) [0..<length ts]),
            None,
            calls @ concat (map (\<lambda>j. snd (snd (search session scheds args ts j))) [0..<length ts]))"
  using assms
proof (induction ts arbitrary: scheds allResults calls)
  case Nil
  then show ?case by simp
next
  case (Cons t ts)
  obtain partial err cs where s0: "search session scheds args (t # ts) 0 = (partial, err, cs)"
    by (cases "search session scheds args (t # ts) 0") auto
  then have f0: "findForTripLength session (case scheds of [] \<Rightarrow> [] | picks # _ \<Rightarrow> picks) args t
                  = (partial, err, cs)"
    by (simp add: search_def picksFor_0)
  from Cons.prems s0 have none: "err = None" by auto
  have ok: "\<forall>j<length ts. fst (snd (search session (tl scheds) args ts j)) = None"
  proof (intro allI impI)
    fix j assume "j < length ts"
    then have "Suc j < length (t # ts)" by simp
    with Cons.prems have "fst (snd (search session scheds args (t # ts) (Suc j))) = None"
      by blast
    then show "fst (snd (search session (tl scheds) args ts j)) = None"
      by (simp add: search_Cons_Suc)
  qed
  have "Find_loop session scheds args (t # ts) allResults calls
          = Find_loop session (tl scheds) args ts (allResults @ partial) (calls @ cs)"
    using f0 none by simp
  also note Cons.IH [OF ok]
  finally have eq: "Find_loop session scheds args (t # ts) allResults calls =
     ((allResults @ partial) @
        concat (map (\<lambda>j. fst (search session (tl scheds) args ts j)) [0..<length ts]),
      None,
      (calls @ cs) @
        concat (map (\<lambda>j. snd (snd (search session (tl scheds) args ts j))) [0..<length ts]))" .
  have m1: "map (\<lambda>j. fst (search session scheds args (t # ts) j)) [0..<Suc (length ts)]
              = partial # map (\<lambda>j. fst (search session (tl scheds) args ts j)) [0..<length ts]"
    by (subst map_upt_Suc_shift) (simp add: s0 search_Cons_Suc del: upt_Suc)
  have m2: "map (\<lambda>j. snd (snd (search session scheds args (t # ts) j))) [0..<Suc (length ts)]
              = cs # map (\<lambda>j. snd (snd (search session (tl scheds) args ts j))) [0..<length ts]"
    by (subst map_upt_Suc_shift) (simp add: s0 search_Cons_Suc del: upt_Suc)
  show ?case unfolding eq length_Cons m1 m2 by simp
qed

lemma Find_loop_cases:
  "(\<forall>j<length ts. fst (snd (search session scheds args ts j)) = None) \<or>
   (\<exists>k e. k < length ts \<and> (\<forall>j<k. fst (snd (search session scheds args ts j)) = None)
          \<and> fst (snd (search session scheds args ts k)) = Some e)"
proof (cases "\<forall>j<length ts. fst (snd (search session scheds args ts j)) = None")
  case True
  then show ?thesis by simp
next
  case False
  define P where "P j \<longleftrightarrow> j < length ts \<and> fst (snd (search session scheds args ts j)) \<noteq> None" for j
  from False have "\<exists>j. P j" by (auto simp: P_def)
  then obtain k where k: "P k" "\<forall>j<k. \<not> P j"
    using exists_least_iff [of P] by auto
  then have "k < length ts" "\<forall>j<k. fst (snd (search session scheds args ts j)) = None"
    by (auto simp: P_def)
  moreover from k obtain e where "fst (snd (search session scheds args ts k)) = Some e"
    by (auto simp: P_def)
  ultimately show ?thesis by blast
qed

lemma Find_success_shape:
  assumes "errOf (Find session scheds args) = None"
  shows "validateArgs args = None"
    and "\<forall>j<length (TripLengths args). errOf (search session scheds args (TripLengths args) j) = None"
    and "Find session scheds args =
          (sort_Slice resultLess
             (concat (map (\<lambda>j. resultsOf (search session scheds args (TripLengths args) j))
                        [0..<length (TripLengths args)])),
           None,
           concat (map (\<lambda>j. callsOf (search session scheds args (TripLengths args) j))
                        [0..<length (TripLengths args)]))"
proof -
  show v: "validateArgs args = None"
    using assms by (cases "validateArgs args") (simp_all add: Find_def)
  show ok: "\<forall>j<length (TripLengths args). errOf (search session scheds args (TripLengths args) j) = None"
  proof (rule ccontr)
    assume "\<not> ?thesis"
    with Find_loop_cases [of "TripLengths args" session scheds args]
    obtain k e where "k < length (TripLengths args)"
      "\<forall>j<k. errOf (search session scheds args (TripLengths args) j) = None"
      "errOf (search session scheds args (TripLengths args) k) = Some e"
      by blast
    from Find_loop_fail_at [OF this, of "[]" "[]"] v assms show False
      by (simp add: Find_def)
  qed
  show "Find session scheds args =
          (sort_Slice resultLess
             (concat (map (\<lambda>j. resultsOf (search session scheds args (TripLengths args) j))
                        [0..<length (TripLengths args)])),
           None,
           concat (map (\<lambda>j. callsOf (search session scheds args (TripLengths args) j))
                        [0..<length (TripLengths args)]))"
    using Find_loop_ok [OF ok, of "[]" "[]"] v by (simp add: Find_def)
qed

lemma Find_origin:
  assumes "errOf (Find session scheds args) = None"
    and "r \<in> set (resultsOf (Find session scheds args))"
  shows "\<exists>t\<in>set (TripLengths args). \<exists>offers offer.
           GetPriceGraph session (priceGraphArgs args t) = Inr offers
           \<and> offer \<in> set offers
           \<and> fst (refineTask session args t offer) = Some (Inr r)
           \<and> set (snd (refineTask session args t offer)) \<subseteq> set (callsOf (Find session scheds args))"
proof -
  let ?ts = "TripLengths args"
  note shape = Find_success_shape(3) [OF assms(1)]
  from assms(2) obtain j where j: "j < length ?ts"
    "r \<in> set (resultsOf (search session scheds args ?ts j))"
    unfolding shape by (auto simp: set_sort_Slice)
  from findForTripLength_origin [OF j(2) [unfolded search_def]]
  obtain offers offer where o:
    "GetPriceGraph session (priceGraphArgs args (?ts ! j)) = Inr offers"
    "offer \<in> set offers"
    "fst (refineTask session args (?ts ! j) offer) = Some (Inr r)"
    "set (snd (refineTask session args (?ts ! j) offer))
       \<subseteq> set (callsOf (search session scheds args ?ts j))"
    unfolding search_def by blast
  have "set (callsOf (search session scheds args ?ts j)) \<subseteq> set (callsOf (Find session scheds args))"
    unfolding shape using j(1) by auto
  with o j(1) show ?thesis
    by (intro bexI [of _ "?ts ! j"]) (auto intro!: exI [of _ offers] exI [of _ offer])
qed

lemma Find_error_no_results:
  "errOf (Find session scheds args) \<noteq> None \<Longrightarrow> resultsOf (Find session scheds args) = []"
  by (auto simp: Find_def split: option.splits prod.splits)

lemma Find_results_sorted: "sorted_wrt rank_le (resultsOf (Find session scheds args))"
proof (cases "errOf (Find session scheds args)")
  case None
  then show ?thesis by (simp add: Find_success_shape(3) [OF None] sorted_sort_Slice)
next
  case (Some e)
  then show ?thesis by (simp add: Find_error_no_results)
qed

lemma Find_success_indep:
  assumes "errOf (Find session scheds args) = None"
  shows "errOf (Find session scheds' args) = None
         \<and> mset (resultsOf (Find session scheds args)) = mset (resultsOf (Find session scheds' args))"
proof -
  let ?ts = "TripLengths args"
  note v = Find_success_shape(1) [OF assms]
  note ok = Find_success_shape(2) [OF assms]
  note shape = Find_success_shape(3) [OF assms]
  have ok': "\<forall>j<length ?ts. errOf (search session scheds' args ?ts j) = None"
    using ok search_err_indep [of session scheds args ?ts _ scheds'] by blast
  have shape': "Find session scheds' args =
          (sort_Slice resultLess
             (concat (map (\<lambda>j. resultsOf (search session scheds' args ?ts j)) [0..<length ?ts])),
           None,
           concat (map (\<lambda>j. callsOf (search session scheds' args ?ts j)) [0..<length ?ts]))"
    using Find_loop_ok [OF ok', of "[]" "[]"] v by (simp add: Find_def)
  have "mset (concat (map (\<lambda>j. resultsOf (search session scheds args ?ts j)) [0..<length ?ts]))
        = mset (concat (map (\<lambda>j. resultsOf (search session scheds' args ?ts j)) [0..<length ?ts]))"
    by (intro mset_concat_cong ballI) (rule search_mset_indep)
  then show ?thesis unfolding shape shape' by (simp add: mset_sort_Slice)
qed

section \<open>The claims\<close>

subsection \<open>Prices below the baseline\<close>

text \<open>
  Claim C1. In a successful call of \<open>Find\<close>, every returned result has a price strictly
  below the low bound of the baseline that the session gave for that result's own dates
  and airport pair: the query was issued during the call, it returned a baseline, and the
  price is below its low bound; no result with a price at or above that bound is returned.
\<close>

theorem Find_price_below_baseline_low:
  assumes "errOf (Find session scheds args) = None"
    and "r \<in> set (resultsOf (Find session scheds args))"
  shows "OffersCall (resultArgs args r) \<in> set (callsOf (Find session scheds args))
         \<and> (\<exists>fullOffers pr. GetOffers session (resultArgs args r) = Inr (fullOffers, Some pr)
                \<and> Result.Price r < Low pr)
         \<and> \<not> (\<exists>fullOffers pr. GetOffers session (resultArgs args r) = Inr (fullOffers, Some pr)
                \<and> Result.Price r \<ge> Low pr)"
proof -
  from Find_origin [OF assms] obtain t offers offer where o:
    "fst (refineTask session args t offer) = Some (Inr r)"
    "set (snd (refineTask session args t offer)) \<subseteq> set (callsOf (Find session scheds args))"
    by blast
  from o(1) obtain fullOffers y pr url where e:
    "GetOffers session (airportArgs args (bestOfferOf fullOffers)) = Inr (y, Some pr)"
    "flights_Offer.Price (bestOfferOf fullOffers) < Low pr"
    "r = mkResult (bestOfferOf fullOffers) t url"
    "snd (refineTask session args t offer) =
       [OffersCall (cityArgs args offer),
        OffersCall (airportArgs args (bestOfferOf fullOffers)),
        SerializeURLCall (airportArgs args (bestOfferOf fullOffers))]"
    by (rule refineTask_emits)
  have ra: "resultArgs args r = airportArgs args (bestOfferOf fullOffers)"
    by (simp add: e(3) resultArgs_mkResult)
  have pr: "Result.Price r = flights_Offer.Price (bestOfferOf fullOffers)"
    by (simp add: e(3) mkResult_def)
  have "OffersCall (resultArgs args r) \<in> set (callsOf (Find session scheds args))"
    using o(2) e(4) ra by auto
  moreover have "GetOffers session (resultArgs args r) = Inr (y, Some pr)"
    using e(1) ra by simp
  ultimately show ?thesis using e(2) pr by auto
qed

text \<open>One candidate, offers of 500 and 0, baseline 600 to 900: one result at 500.\<close>

theorem Find_price_below_baseline_low_witness:
  "errOf (Find stubSession [] (stubArgs [7])) = None
   \<and> resultsOf (Find stubSession [] (stubArgs [7])) = [mkResult (stubOffer 1 8 ''SFO'' 500) 7 stubURL]
   \<and> (\<exists>fullOffers pr.
         GetOffers stubSession
           (resultArgs (stubArgs [7]) (mkResult (stubOffer 1 8 ''SFO'' 500) 7 stubURL))
           = Inr (fullOffers, Some pr)
         \<and> 500 < Low pr)"
proof -
  have run: "errOf (Find stubSession [] (stubArgs [7])) = None"
    "resultsOf (Find stubSession [] (stubArgs [7])) = [mkResult (stubOffer 1 8 ''SFO'' 500) 7 stubURL]"
    by (simp_all add: eval_defs stubSession_def)
  have mem: "mkResult (stubOffer 1 8 ''SFO'' 500) 7 stubURL
               \<in> set (resultsOf (Find stubSession [] (stubArgs [7])))"
    by (simp add: run(2))
  have "Result.Price (mkResult (stubOffer 1 8 ''SFO'' 500) 7 stubURL) = 500"
    by (simp add: mkResult_def stubOffer_def)
  with Find_price_below_baseline_low [OF run(1) mem] run show ?thesis by simp
qed

subsection \<open>The order of the output\<close>

text \<open>
  Claim C2. In a successful call of \<open>Find\<close>, the returned sequence is sorted ascending by
  price, ties broken by departure date, then by return date, then by trip length; no
  adjacent pair violates the order, and the later element of a pair is never less than
  the earlier one under the comparator of the code.
\<close>

theorem Find_sorted:
  assumes "errOf (Find session scheds args) = None"
  shows "sorted_wrt rank_le (resultsOf (Find session scheds args))
         \<and> (\<forall>i. Suc i < length (resultsOf (Find session scheds args)) \<longrightarrow>
                rank_le (resultsOf (Find session scheds args) ! i)
                        (resultsOf (Find session scheds args) ! Suc i)
                \<and> \<not> resultLess (resultsOf (Find session scheds args) ! Suc i)
                                (resultsOf (Find session scheds args) ! i))"
proof -
  have s: "sorted_wrt rank_le (resultsOf (Find session scheds args))"
    by (simp add: Find_success_shape(3) [OF assms] sorted_sort_Slice)
  then have "\<forall>i. Suc i < length (resultsOf (Find session scheds args)) \<longrightarrow>
                rank_le (resultsOf (Find session scheds args) ! i)
                        (resultsOf (Find session scheds args) ! Suc i)"
    by (auto simp: sorted_wrt_iff_nth_less)
  with s show ?thesis by (simp add: not_resultLess)
qed

text \<open>Trip lengths 7 and 10 with results at 500 and 300: the output is 300, then 500.\<close>

theorem Find_sorted_witness:
  "errOf (Find stubSession [] (stubArgs [7, 10])) = None
   \<and> resultsOf (Find stubSession [] (stubArgs [7, 10]))
       = [mkResult (stubOffer 1 11 ''SFO'' 300) 10 stubURL,
          mkResult (stubOffer 1 8 ''SFO'' 500) 7 stubURL]
   \<and> sorted_wrt rank_le (resultsOf (Find stubSession [] (stubArgs [7, 10])))"
proof -
  have run: "errOf (Find stubSession [] (stubArgs [7, 10])) = None"
    "resultsOf (Find stubSession [] (stubArgs [7, 10]))
       = [mkResult (stubOffer 1 11 ''SFO'' 300) 10 stubURL,
          mkResult (stubOffer 1 8 ''SFO'' 500) 7 stubURL]"
    by (simp_all add: eval_defs stubSession_def)
  from Find_sorted [OF run(1)] run show ?thesis by blast
qed

subsection \<open>The price of a result\<close>

text \<open>
  Claim C3. A result that a refinement task emits has the minimum price among the
  detailed offers of the task's candidate whose price is not zero.
\<close>

theorem refineTask_price_is_min_nonzero:
  assumes "fst (refineTask session args t offer) = Some (Inr r)"
  shows "\<exists>fullOffers x. GetOffers session (cityArgs args offer) = Inr (fullOffers, x)
           \<and> (\<exists>f\<in>set fullOffers. flights_Offer.Price f \<noteq> 0)
           \<and> Result.Price r =
               Min (flights_Offer.Price ` {f \<in> set fullOffers. flights_Offer.Price f \<noteq> 0})"
proof -
  from assms obtain fullOffers x url where e:
    "GetOffers session (cityArgs args offer) = Inr (fullOffers, x)"
    "flights_Offer.Price (bestOfferOf fullOffers) \<noteq> 0"
    "r = mkResult (bestOfferOf fullOffers) t url"
    by (rule refineTask_emits)
  from e(2) have ex: "\<exists>f\<in>set fullOffers. flights_Offer.Price f \<noteq> 0"
    by (simp add: bestOfferOf_zero_iff)
  have "Result.Price r = flights_Offer.Price (bestOfferOf fullOffers)"
    by (simp add: e(3) mkResult_def)
  with bestOfferOf_price [OF ex] e(1) ex show ?thesis by auto
qed

theorem refineTask_price_is_min_nonzero_witness:
  "fst (refineTask stubSession (stubArgs [7]) 7 (sample 0 7))
     = Some (Inr (mkResult (stubOffer 1 8 ''SFO'' 500) 7 stubURL))
   \<and> (\<exists>fullOffers x.
         GetOffers stubSession (cityArgs (stubArgs [7]) (sample 0 7)) = Inr (fullOffers, x)
         \<and> (\<exists>f\<in>set fullOffers. flights_Offer.Price f \<noteq> 0)
         \<and> 500 = Min (flights_Offer.Price ` {f \<in> set fullOffers. flights_Offer.Price f \<noteq> 0}))"
proof -
  have run: "fst (refineTask stubSession (stubArgs [7]) 7 (sample 0 7))
     = Some (Inr (mkResult (stubOffer 1 8 ''SFO'' 500) 7 stubURL))"
    by (simp add: eval_defs stubSession_def)
  have "Result.Price (mkResult (stubOffer 1 8 ''SFO'' 500) 7 stubURL) = 500"
    by (simp add: mkResult_def stubOffer_def)
  with refineTask_price_is_min_nonzero [OF run] run show ?thesis by simp
qed

subsection \<open>The winning offer\<close>

text \<open>
  Claim C4, as amended. A task selects the cheapest detailed offer whose price is not
  zero. When every detailed offer has price zero, or there is none, the task sends no
  result and no error and issues no further call; an offer with price zero is never the
  winning offer of a result.
\<close>

theorem refineTask_selects_cheapest_nonzero:
  "((\<exists>f\<in>set fullOffers. flights_Offer.Price f \<noteq> 0) \<longrightarrow>
       bestOfferOf fullOffers \<in> set fullOffers
       \<and> flights_Offer.Price (bestOfferOf fullOffers) \<noteq> 0
       \<and> (\<forall>f\<in>set fullOffers. flights_Offer.Price f \<noteq> 0 \<longrightarrow>
              flights_Offer.Price (bestOfferOf fullOffers) \<le> flights_Offer.Price f))
   \<and> (GetOffers session (cityArgs args offer) = Inr (fullOffers, x)
        \<and> (\<forall>f\<in>set fullOffers. flights_Offer.Price f = 0) \<longrightarrow>
       refineTask session args t offer = (None, [OffersCall (cityArgs args offer)]))
   \<and> (fst (refineTask session args t offer) = Some (Inr r) \<longrightarrow> Result.Price r \<noteq> 0)"
proof (intro conjI impI)
  assume ex: "\<exists>f\<in>set fullOffers. flights_Offer.Price f \<noteq> 0"
  then show nz: "flights_Offer.Price (bestOfferOf fullOffers) \<noteq> 0"
    by (simp add: bestOfferOf_zero_iff)
  then show "bestOfferOf fullOffers \<in> set fullOffers" by (rule bestOfferOf_mem)
  show "\<forall>f\<in>set fullOffers. flights_Offer.Price f \<noteq> 0 \<longrightarrow>
          flights_Offer.Price (bestOfferOf fullOffers) \<le> flights_Offer.Price f"
    unfolding bestOfferOf_price [OF ex] by (auto intro!: Min_le)
next
  assume "GetOffers session (cityArgs args offer) = Inr (fullOffers, x)
            \<and> (\<forall>f\<in>set fullOffers. flights_Offer.Price f = 0)"
  then show "refineTask session args t offer = (None, [OffersCall (cityArgs args offer)])"
    using bestOfferOf_zero_iff [of fullOffers] by (simp add: refineTask_def)
next
  assume "fst (refineTask session args t offer) = Some (Inr r)"
  then obtain fullOffers' url where
    "flights_Offer.Price (bestOfferOf fullOffers') \<noteq> 0" "r = mkResult (bestOfferOf fullOffers') t url"
    by (rule refineTask_emits)
  then show "Result.Price r \<noteq> 0" by (simp add: mkResult_def)
qed

theorem refineTask_selects_cheapest_nonzero_witness:
  "bestOfferOf [stubOffer 1 8 ''SJC'' 700, stubOffer 1 8 ''SJC'' 0, stubOffer 1 8 ''SFO'' 500]
     = stubOffer 1 8 ''SFO'' 500
   \<and> refineTask dullSession (stubArgs [7]) 7 (sample 0 7)
       = (None, [OffersCall (cityArgs (stubArgs [7]) (sample 0 7))])
   \<and> fst (refineTask stubSession (stubArgs [7]) 7 (sample 0 7))
       = Some (Inr (mkResult (stubOffer 1 8 ''SFO'' 500) 7 stubURL))
   \<and> Result.Price (mkResult (stubOffer 1 8 ''SFO'' 500) 7 stubURL) \<noteq> 0"
proof -
  have a: "\<exists>f\<in>set [stubOffer 1 8 ''SJC'' 700, stubOffer 1 8 ''SJC'' 0, stubOffer 1 8 ''SFO'' 500].
             flights_Offer.Price f \<noteq> 0"
    by (simp add: stubOffer_def)
  have b: "GetOffers dullSession (cityArgs (stubArgs [7]) (sample 0 7))
             = Inr ([stubOffer 0 7 ''SFO'' 0], None)
           \<and> (\<forall>f\<in>set [stubOffer 0 7 ''SFO'' 0]. flights_Offer.Price f = 0)"
    by (simp add: dullSession_def cityArgs_def sample_def stubOffer_def)
  have c: "fst (refineTask stubSession (stubArgs [7]) 7 (sample 0 7))
       = Some (Inr (mkResult (stubOffer 1 8 ''SFO'' 500) 7 stubURL))"
    by (simp add: eval_defs stubSession_def)
  have d: "bestOfferOf [stubOffer 1 8 ''SJC'' 700, stubOffer 1 8 ''SJC'' 0, stubOffer 1 8 ''SFO'' 500]
     = stubOffer 1 8 ''SFO'' 500"
    by (simp add: eval_defs)
  from refineTask_selects_cheapest_nonzero
         [of "[stubOffer 1 8 ''SJC'' 700, stubOffer 1 8 ''SJC'' 0, stubOffer 1 8 ''SFO'' 500]"
             stubSession "stubArgs [7]" "sample 0 7" None 7
             "mkResult (stubOffer 1 8 ''SFO'' 500) 7 stubURL"] a c
  have "Result.Price (mkResult (stubOffer 1 8 ''SFO'' 500) 7 stubURL) \<noteq> 0" by blast
  moreover
  from refineTask_selects_cheapest_nonzero
         [of "[stubOffer 0 7 ''SFO'' 0]" dullSession "stubArgs [7]" "sample 0 7" None 7] b
  have "refineTask dullSession (stubArgs [7]) 7 (sample 0 7)
       = (None, [OffersCall (cityArgs (stubArgs [7]) (sample 0 7))])" by blast
  ultimately show ?thesis using c d by simp
qed

text \<open>
  With "strictly positive" for "not zero" the statement fails: the only detailed offer
  costs -5, no offer has a strictly positive price, and the task selects it and emits a
  result at -5.
\<close>

theorem refineTask_positive_price_counterexample:
  "GetOffers negSession (cityArgs (stubArgs [7]) (sample 0 7))
     = Inr ([stubOffer 0 7 ''SFO'' (- 5)], None)
   \<and> \<not> 0 < flights_Offer.Price (stubOffer 0 7 ''SFO'' (- 5))
   \<and> bestOfferOf [stubOffer 0 7 ''SFO'' (- 5)] = stubOffer 0 7 ''SFO'' (- 5)
   \<and> refineTask negSession (stubArgs [7]) 7 (sample 0 7)
       = (Some (Inr (mkResult (stubOffer 0 7 ''SFO'' (- 5)) 7 stubURL)),
          [OffersCall (cityArgs (stubArgs [7]) (sample 0 7)),
           OffersCall (airportArgs (stubArgs [7]) (stubOffer 0 7 ''SFO'' (- 5))),
           SerializeURLCall (airportArgs (stubArgs [7]) (stubOffer 0 7 ''SFO'' (- 5)))])"
  by (simp add: eval_defs negSession_def)

subsection \<open>Failing fast\<close>

text \<open>
  Claim C5. When the search for the trip length at position \<open>k\<close> fails with an error,
  the earlier ones having succeeded, \<open>Find\<close> returns that error and no result, and the
  calls it has issued are those of the searches at positions 0 to \<open>k\<close> and no other:
  exactly \<open>k + 1\<close> price-graph calls, so no search for a later trip length is started.
\<close>

theorem Find_fail_fast:
  assumes "validateArgs args = None"
    and "k < length (TripLengths args)"
    and "\<forall>j<k. errOf (search session scheds args (TripLengths args) j) = None"
    and "errOf (search session scheds args (TripLengths args) k) = Some e"
  shows "Find session scheds args =
           ([], Some e,
            concat (map (\<lambda>j. callsOf (search session scheds args (TripLengths args) j)) [0..<Suc k]))
         \<and> length (filter isPriceGraphCall (callsOf (Find session scheds args))) = Suc k"
proof -
  have eq: "Find session scheds args =
           ([], Some e,
            concat (map (\<lambda>j. callsOf (search session scheds args (TripLengths args) j)) [0..<Suc k]))"
    using Find_loop_fail_at [OF assms(2-4), of "[]" "[]"] assms(1) by (simp add: Find_def)
  have "length (filter isPriceGraphCall (callsOf (Find session scheds args))) = Suc k"
    unfolding eq using count_price_graph_calls [of session scheds args "TripLengths args" "[0..<Suc k]"]
    by simp
  with eq show ?thesis by simp
qed

theorem Find_fail_fast_witness:
  "validateArgs (stubArgs [7, 14, 10]) = None
   \<and> errOf (search stubSession [] (stubArgs [7, 14, 10]) [7, 14, 10] 0) = None
   \<and> errOf (search stubSession [] (stubArgs [7, 14, 10]) [7, 14, 10] 1) = Some (ClientError 1)
   \<and> resultsOf (Find stubSession [] (stubArgs [7, 14, 10])) = []
   \<and> errOf (Find stubSession [] (stubArgs [7, 14, 10])) = Some (ClientError 1)
   \<and> length (filter isPriceGraphCall (callsOf (Find stubSession [] (stubArgs [7, 14, 10])))) = 2"
proof -
  have v: "validateArgs (stubArgs [7, 14, 10]) = None"
    by (simp add: validateArgs_def stubArgs_def)
  have k: "1 < length (TripLengths (stubArgs [7, 14, 10]))"
    by (simp add: stubArgs_def)
  have s0: "errOf (search stubSession [] (stubArgs [7, 14, 10]) [7, 14, 10] 0) = None"
    by (simp add: search_def picksFor_def eval_defs stubSession_def)
  have s1: "errOf (search stubSession [] (stubArgs [7, 14, 10]) [7, 14, 10] 1) = Some (ClientError 1)"
    by (simp add: search_def picksFor_def eval_defs stubSession_def)
  have tl: "TripLengths (stubArgs [7, 14, 10]) = [7, 14, 10]" by (simp add: stubArgs_def)
  have ok: "\<forall>j<1. errOf (search stubSession [] (stubArgs [7, 14, 10])
                            (TripLengths (stubArgs [7, 14, 10])) j) = None"
    using s0 by (simp add: tl)
  have e: "errOf (search stubSession [] (stubArgs [7, 14, 10])
                    (TripLengths (stubArgs [7, 14, 10])) 1) = Some (ClientError 1)"
    using s1 by (simp add: tl)
  note r = Find_fail_fast [OF v k ok e]
  have r1: "resultsOf (Find stubSession [] (stubArgs [7, 14, 10])) = []"
    "errOf (Find stubSession [] (stubArgs [7, 14, 10])) = Some (ClientError 1)"
    using conjunct1 [OF r] by simp_all
  have r2: "length (filter isPriceGraphCall (callsOf (Find stubSession [] (stubArgs [7, 14, 10])))) = 2"
    using conjunct2 [OF r] by simp
  from v s0 s1 r1 r2 show ?thesis by simp
qed

subsection \<open>Validation\<close>

text \<open>
  Claim C6. \<open>validateArgs\<close> fails exactly when the trip lengths are empty, or one of
  them is at most 0, or the end date is before the start date, or the source cities are
  empty, or the destination cities are empty. When it fails, \<open>Find\<close> returns its error,
  made by \<open>fmt.Errorf\<close>, with no result and without having issued any call; when
  it succeeds, \<open>Find\<close> goes on to issue calls.
\<close>

theorem validateArgs_exact:
  "(validateArgs args \<noteq> None \<longleftrightarrow>
      TripLengths args = [] \<or> (\<exists>l\<in>set (TripLengths args). l \<le> 0)
      \<or> Args.RangeEndDate args < Args.RangeStartDate args
      \<or> Args.SrcCities args = [] \<or> Args.DstCities args = [])
   \<and> (\<forall>err. validateArgs args = Some err \<longrightarrow>
          (\<exists>msg. err = Errorf msg) \<and> Find session scheds args = ([], Some err, []))
   \<and> (validateArgs args = None \<longrightarrow> callsOf (Find session scheds args) \<noteq> [])"
proof (intro conjI allI impI)
  show "validateArgs args \<noteq> None \<longleftrightarrow>
      TripLengths args = [] \<or> (\<exists>l\<in>set (TripLengths args). l \<le> 0)
      \<or> Args.RangeEndDate args < Args.RangeStartDate args
      \<or> Args.SrcCities args = [] \<or> Args.DstCities args = []"
    by (auto simp: validateArgs_def list_ex_iff)
next
  fix err assume "validateArgs args = Some err"
  then show "\<exists>msg. err = Errorf msg"
    by (auto simp: validateArgs_def split: if_splits)
next
  fix err assume "validateArgs args = Some err"
  then show "Find session scheds args = ([], Some err, [])"
    by (simp add: Find_def)
next
  assume v: "validateArgs args = None"
  then have ne: "TripLengths args \<noteq> []" by (auto simp: validateArgs_def split: if_splits)
  let ?ts = "TripLengths args"
  have c0: "callsOf (search session scheds args ?ts 0) \<noteq> []"
    using findForTripLength_one_price_graph_call [of session "picksFor scheds 0" args "?ts ! 0"]
    by (auto simp: search_def)
  show "callsOf (Find session scheds args) \<noteq> []"
  proof (cases "errOf (Find session scheds args)")
    case None
    have "callsOf (Find session scheds args)
            = concat (map (\<lambda>j. callsOf (search session scheds args ?ts j)) [0..<length ?ts])"
      using Find_success_shape(3) [OF None] by simp
    also have "[0..<length ?ts] = 0 # [1..<length ?ts]" using ne by (simp add: upt_conv_Cons)
    finally show ?thesis using c0 by simp
  next
    case (Some e)
    from Find_loop_cases [of ?ts session scheds args]
    show ?thesis
    proof
      assume ok: "\<forall>j<length ?ts. errOf (search session scheds args ?ts j) = None"
      from Find_loop_ok [OF ok, of "[]" "[]"] v Some show ?thesis by (simp add: Find_def)
    next
      assume "\<exists>k e. k < length ?ts \<and> (\<forall>j<k. errOf (search session scheds args ?ts j) = None)
                \<and> errOf (search session scheds args ?ts k) = Some e"
      then obtain k e' where f: "k < length ?ts"
        "\<forall>j<k. errOf (search session scheds args ?ts j) = None"
        "errOf (search session scheds args ?ts k) = Some e'" by blast
      have "callsOf (Find session scheds args)
              = concat (map (\<lambda>j. callsOf (search session scheds args ?ts j)) [0..<Suc k])"
        using Find_loop_fail_at [OF f, of "[]" "[]"] v by (simp add: Find_def)
      also have "[0..<Suc k] = 0 # [1..<Suc k]" by (simp add: upt_conv_Cons del: upt_Suc)
      finally show ?thesis using c0 by simp
    qed
  qed
qed

theorem validateArgs_exact_witness:
  "validateArgs (stubArgs []) = Some (Errorf ''at least one trip length is required'')
   \<and> Find stubSession [] (stubArgs [])
       = ([], Some (Errorf ''at least one trip length is required''), [])
   \<and> validateArgs (stubArgs [7]) = None
   \<and> callsOf (Find stubSession [] (stubArgs [7])) \<noteq> []"
proof -
  have a: "validateArgs (stubArgs []) = Some (Errorf ''at least one trip length is required'')"
    by (simp add: validateArgs_def stubArgs_def)
  have b: "validateArgs (stubArgs [7]) = None"
    by (simp add: validateArgs_def stubArgs_def)
  from validateArgs_exact [of "stubArgs []" stubSession "[]"] a
  have "Find stubSession [] (stubArgs [])
       = ([], Some (Errorf ''at least one trip length is required''), [])" by blast
  moreover from validateArgs_exact [of "stubArgs [7]" stubSession "[]"] b
  have "callsOf (Find stubSession [] (stubArgs [7])) \<noteq> []" by blast
  ultimately show ?thesis using a b by simp
qed

subsection \<open>No qualifying data\<close>

text \<open>
  Claim C7, as amended. A candidate whose detailed offers all have price zero (or are
  none), or whose baseline is absent, or whose winning price is not below the low bound of
  the baseline, contributes neither a result nor an error; a call on a valid request
  whose candidates are all of this kind returns the empty sequence and no error.
\<close>

theorem noQualifyingData_no_result_no_error:
  "(noQualifyingData session args offer \<longrightarrow> fst (refineTask session args t offer) = None)
   \<and> (validateArgs args = None
        \<and> (\<forall>t\<in>set (TripLengths args). \<exists>offers.
               GetPriceGraph session (priceGraphArgs args t) = Inr offers
               \<and> (\<forall>offer\<in>set offers. noQualifyingData session args offer)) \<longrightarrow>
       resultsOf (Find session scheds args) = [] \<and> errOf (Find session scheds args) = None)"
proof (intro conjI impI)
  assume "noQualifyingData session args offer"
  then show "fst (refineTask session args t offer) = None"
    by (rule noQualifyingData_refineTask)
next
  assume a: "validateArgs args = None
        \<and> (\<forall>t\<in>set (TripLengths args). \<exists>offers.
               GetPriceGraph session (priceGraphArgs args t) = Inr offers
               \<and> (\<forall>offer\<in>set offers. noQualifyingData session args offer))"
  let ?ts = "TripLengths args"
  have each: "resultsOf (search session scheds args ?ts j) = []
              \<and> errOf (search session scheds args ?ts j) = None" if "j < length ?ts" for j
  proof -
    from that a obtain offers where o:
      "GetPriceGraph session (priceGraphArgs args (?ts ! j)) = Inr offers"
      "\<forall>offer\<in>set offers. noQualifyingData session args offer"
      by (meson nth_mem)
    have "taskItems session args (?ts ! j) offers = []"
      unfolding taskItems_def using o(2)
      by (intro sent_all_None) (auto simp: noQualifyingData_refineTask)
    then show ?thesis by (simp add: search_def findForTripLength_Inr [OF o(1)] arrive_Nil)
  qed
  then have ok: "\<forall>j<length ?ts. errOf (search session scheds args ?ts j) = None" by blast
  have c: "concat (map (\<lambda>j. resultsOf (search session scheds args ?ts j)) [0..<length ?ts]) = []"
    using each by (intro concat_all_Nil) simp
  have shape: "Find session scheds args =
               (sort_Slice resultLess
                  (concat (map (\<lambda>j. resultsOf (search session scheds args ?ts j)) [0..<length ?ts])),
                None,
                concat (map (\<lambda>j. callsOf (search session scheds args ?ts j)) [0..<length ?ts]))"
    using Find_loop_ok [OF ok, of "[]" "[]"] a by (simp add: Find_def)
  have "sort_Slice resultLess
          (concat (map (\<lambda>j. resultsOf (search session scheds args ?ts j)) [0..<length ?ts])) = []"
    unfolding c by (simp add: sort_Slice_def)
  with shape show "resultsOf (Find session scheds args) = []" "errOf (Find session scheds args) = None"
    by simp_all
qed

theorem noQualifyingData_no_result_no_error_witness:
  "noQualifyingData dullSession (stubArgs [7]) (sample 0 7)
   \<and> noQualifyingData dullSession (stubArgs [7]) (sample 1 8)
   \<and> noQualifyingData dullSession (stubArgs [7]) (sample 2 9)
   \<and> fst (refineTask dullSession (stubArgs [7]) 7 (sample 1 8)) = None
   \<and> resultsOf (Find dullSession [] (stubArgs [7])) = []
   \<and> errOf (Find dullSession [] (stubArgs [7])) = None"
proof -
  have n: "noQualifyingData dullSession (stubArgs [7]) (sample 0 7)"
    "noQualifyingData dullSession (stubArgs [7]) (sample 1 8)"
    "noQualifyingData dullSession (stubArgs [7]) (sample 2 9)"
    by (simp_all add: noQualifyingData_def eval_defs dullSession_def)
  have v: "validateArgs (stubArgs [7]) = None
        \<and> (\<forall>t\<in>set (TripLengths (stubArgs [7])). \<exists>offers.
               GetPriceGraph dullSession (priceGraphArgs (stubArgs [7]) t) = Inr offers
               \<and> (\<forall>offer\<in>set offers. noQualifyingData dullSession (stubArgs [7]) offer))"
    using n by (simp add: validateArgs_def stubArgs_def dullSession_def)
  from noQualifyingData_no_result_no_error
         [of dullSession "stubArgs [7]" "sample 1 8" 7 "[]"] n(2) v
  have "fst (refineTask dullSession (stubArgs [7]) 7 (sample 1 8)) = None"
    "resultsOf (Find dullSession [] (stubArgs [7])) = []"
    "errOf (Find dullSession [] (stubArgs [7])) = None"
    by blast+
  with n show ?thesis by simp
qed

text \<open>
  With "no positive-price entries" for "all of price zero" the statement fails: the
  detailed offers cost 0 and -20, none is positive, and the candidate contributes a result
  at -20, which \<open>Find\<close> returns.
\<close>

theorem no_positive_price_counterexample:
  "GetOffers negSession (cityArgs (stubArgs [10]) (sample 0 10))
     = Inr ([stubOffer 0 10 ''SFO'' 0, stubOffer 0 10 ''SJC'' (- 20)], None)
   \<and> \<not> 0 < flights_Offer.Price (stubOffer 0 10 ''SFO'' 0)
   \<and> \<not> 0 < flights_Offer.Price (stubOffer 0 10 ''SJC'' (- 20))
   \<and> fst (refineTask negSession (stubArgs [10]) 10 (sample 0 10))
       = Some (Inr (mkResult (stubOffer 0 10 ''SJC'' (- 20)) 10 stubURL))
   \<and> Find negSession [] (stubArgs [10])
       = ([mkResult (stubOffer 0 10 ''SJC'' (- 20)) 10 stubURL], None,
          [PriceGraphCall (priceGraphArgs (stubArgs [10]) 10),
           OffersCall (cityArgs (stubArgs [10]) (sample 0 10)),
           OffersCall (airportArgs (stubArgs [10]) (stubOffer 0 10 ''SJC'' (- 20))),
           SerializeURLCall (airportArgs (stubArgs [10]) (stubOffer 0 10 ''SJC'' (- 20)))])"
  by (simp add: eval_defs negSession_def)

subsection \<open>Two calls with the same request\<close>

text \<open>
  Claim C8, as amended. With a session that answers as a function of the call's
  arguments, two calls of \<open>Find\<close> with the same request, under any two arrival orders,
  both fail or both succeed, and return the same results with the same multiplicities,
  each sequence sorted by price, departure date, return date and trip length. The two
  sequences are identical whenever any two returned results that agree on these four
  fields are equal.
\<close>

theorem Find_schedule_independence:
  "(errOf (Find session scheds args) = None \<longleftrightarrow> errOf (Find session scheds' args) = None)
   \<and> mset (resultsOf (Find session scheds args)) = mset (resultsOf (Find session scheds' args))
   \<and> sorted_wrt rank_le (resultsOf (Find session scheds args))
   \<and> sorted_wrt rank_le (resultsOf (Find session scheds' args))
   \<and> ((\<forall>a\<in>set (resultsOf (Find session scheds args)).
         \<forall>b\<in>set (resultsOf (Find session scheds args)).
           Result.Price a = Result.Price b \<and> Result.StartDate a = Result.StartDate b
           \<and> Result.ReturnDate a = Result.ReturnDate b \<and> Result.TripLength a = Result.TripLength b
           \<longrightarrow> a = b) \<longrightarrow>
       resultsOf (Find session scheds args) = resultsOf (Find session scheds' args))"
proof -
  have iff: "errOf (Find session scheds args) = None \<longleftrightarrow> errOf (Find session scheds' args) = None"
    using Find_success_indep [of session scheds args scheds']
      Find_success_indep [of session scheds' args scheds] by blast
  have ms: "mset (resultsOf (Find session scheds args)) = mset (resultsOf (Find session scheds' args))"
  proof (cases "errOf (Find session scheds args)")
    case None
    then show ?thesis using Find_success_indep by blast
  next
    case (Some e)
    then have "errOf (Find session scheds' args) \<noteq> None" using iff by simp
    with Some show ?thesis by (simp add: Find_error_no_results)
  qed
  have s: "sorted_wrt rank_le (resultsOf (Find session scheds args))"
    "sorted_wrt rank_le (resultsOf (Find session scheds' args))"
    by (rule Find_results_sorted)+
  have "resultsOf (Find session scheds args) = resultsOf (Find session scheds' args)"
    if "\<forall>a\<in>set (resultsOf (Find session scheds args)).
         \<forall>b\<in>set (resultsOf (Find session scheds args)).
           Result.Price a = Result.Price b \<and> Result.StartDate a = Result.StartDate b
           \<and> Result.ReturnDate a = Result.ReturnDate b \<and> Result.TripLength a = Result.TripLength b
           \<longrightarrow> a = b"
    using s ms that by (intro sorted_mset_unique) (simp_all add: rank_le_both)
  with iff ms s show ?thesis by blast
qed

text \<open>
  Two results at 450 and 500, which do not tie: under the arrival orders 500 first and
  450 first the output is the same.
\<close>

theorem Find_schedule_independence_witness:
  "resultsOf (Find pairSession [[0]] (stubArgs [7]))
     = [mkResult (stubOffer 1 8 ''SFO'' 450) 7 stubURL, mkResult (stubOffer 0 7 ''SFO'' 500) 7 stubURL]
   \<and> Result.Price (mkResult (stubOffer 1 8 ''SFO'' 450) 7 stubURL)
       \<noteq> Result.Price (mkResult (stubOffer 0 7 ''SFO'' 500) 7 stubURL)
   \<and> resultsOf (Find pairSession [[0]] (stubArgs [7])) = resultsOf (Find pairSession [[1]] (stubArgs [7]))"
proof -
  have run: "resultsOf (Find pairSession [[0]] (stubArgs [7]))
     = [mkResult (stubOffer 1 8 ''SFO'' 450) 7 stubURL, mkResult (stubOffer 0 7 ''SFO'' 500) 7 stubURL]"
    by (simp add: eval_defs pairSession_def)
  have ties: "\<forall>a\<in>set (resultsOf (Find pairSession [[0]] (stubArgs [7]))).
         \<forall>b\<in>set (resultsOf (Find pairSession [[0]] (stubArgs [7]))).
           Result.Price a = Result.Price b \<and> Result.StartDate a = Result.StartDate b
           \<and> Result.ReturnDate a = Result.ReturnDate b \<and> Result.TripLength a = Result.TripLength b
           \<longrightarrow> a = b"
    unfolding run by (simp add: mkResult_def stubOffer_def)
  from Find_schedule_independence [of pairSession "[[0]]" "stubArgs [7]" "[[1]]"] ties
  have "resultsOf (Find pairSession [[0]] (stubArgs [7])) = resultsOf (Find pairSession [[1]] (stubArgs [7]))"
    by blast
  moreover have "Result.Price (mkResult (stubOffer 1 8 ''SFO'' 450) 7 stubURL)
       \<noteq> Result.Price (mkResult (stubOffer 0 7 ''SFO'' 500) 7 stubURL)"
    by (simp add: mkResult_def stubOffer_def)
  ultimately show ?thesis using run by blast
qed

text \<open>
  Without the last condition the sequences can differ: two results tie on the four
  fields and differ in the source airport, and they come out in the order of arrival.
\<close>

theorem Find_order_counterexample:
  "errOf (Find tieSession [[0]] (stubArgs [7])) = None
   \<and> errOf (Find tieSession [[1]] (stubArgs [7])) = None
   \<and> resultsOf (Find tieSession [[0]] (stubArgs [7]))
       = [mkResult (stubOffer 0 7 ''SFO'' 500) 7 stubURL, mkResult (stubOffer 0 7 ''SJC'' 500) 7 stubURL]
   \<and> resultsOf (Find tieSession [[1]] (stubArgs [7]))
       = [mkResult (stubOffer 0 7 ''SJC'' 500) 7 stubURL, mkResult (stubOffer 0 7 ''SFO'' 500) 7 stubURL]
   \<and> resultsOf (Find tieSession [[0]] (stubArgs [7])) \<noteq> resultsOf (Find tieSession [[1]] (stubArgs [7]))"
  by (simp add: eval_defs tieSession_def)

subsection \<open>One result per candidate\<close>

text \<open>
  Claim C10. Each price-graph candidate has one task, which sends at most one item, so
  a search returns no more results than the price graph has candidates; and the dates,
  airport codes and price of an emitted result are those of the winning detailed offer,
  which is one of the offers the session returned for the candidate.
\<close>

theorem one_result_per_candidate:
  "length (sent (map (refineTask session args t) priceGraphOffers)) \<le> length priceGraphOffers
   \<and> length (resultsOf (findForTripLength session picks args t))
       \<le> (case GetPriceGraph session (priceGraphArgs args t) of
             Inl err \<Rightarrow> 0
           | Inr priceGraphOffers \<Rightarrow> length priceGraphOffers)
   \<and> (fst (refineTask session args t offer) = Some (Inr r) \<longrightarrow>
        (\<exists>fullOffers x.
           GetOffers session (cityArgs args offer) = Inr (fullOffers, x)
           \<and> bestOfferOf fullOffers \<in> set fullOffers
           \<and> Result.StartDate r = flights_Offer.StartDate (bestOfferOf fullOffers)
           \<and> Result.ReturnDate r = flights_Offer.ReturnDate (bestOfferOf fullOffers)
           \<and> SrcAirport r = SrcAirportCode (bestOfferOf fullOffers)
           \<and> DstAirport r = DstAirportCode (bestOfferOf fullOffers)
           \<and> Result.Price r = flights_Offer.Price (bestOfferOf fullOffers)))"
proof (intro conjI impI)
  show "length (sent (map (refineTask session args t) priceGraphOffers)) \<le> length priceGraphOffers"
    using length_sent [of "map (refineTask session args t) priceGraphOffers"] by simp
  show "length (resultsOf (findForTripLength session picks args t))
       \<le> (case GetPriceGraph session (priceGraphArgs args t) of
             Inl err \<Rightarrow> 0
           | Inr priceGraphOffers \<Rightarrow> length priceGraphOffers)"
    by (rule findForTripLength_length)
next
  assume "fst (refineTask session args t offer) = Some (Inr r)"
  then obtain fullOffers x url where e:
    "GetOffers session (cityArgs args offer) = Inr (fullOffers, x)"
    "flights_Offer.Price (bestOfferOf fullOffers) \<noteq> 0"
    "r = mkResult (bestOfferOf fullOffers) t url"
    by (rule refineTask_emits)
  from e(2) have "bestOfferOf fullOffers \<in> set fullOffers" by (rule bestOfferOf_mem)
  with e(1,3) show "\<exists>fullOffers x.
           GetOffers session (cityArgs args offer) = Inr (fullOffers, x)
           \<and> bestOfferOf fullOffers \<in> set fullOffers
           \<and> Result.StartDate r = flights_Offer.StartDate (bestOfferOf fullOffers)
           \<and> Result.ReturnDate r = flights_Offer.ReturnDate (bestOfferOf fullOffers)
           \<and> SrcAirport r = SrcAirportCode (bestOfferOf fullOffers)
           \<and> DstAirport r = DstAirportCode (bestOfferOf fullOffers)
           \<and> Result.Price r = flights_Offer.Price (bestOfferOf fullOffers)"
    by (auto simp: mkResult_def)
qed

text \<open>The candidate is dated 0 to 7, the winning offer and the result 1 to 8.\<close>

theorem one_result_per_candidate_witness:
  "fst (refineTask stubSession (stubArgs [7]) 7 (sample 0 7))
     = Some (Inr (mkResult (stubOffer 1 8 ''SFO'' 500) 7 stubURL))
   \<and> flights_Offer.StartDate (sample 0 7) = 0
   \<and> Result.StartDate (mkResult (stubOffer 1 8 ''SFO'' 500) 7 stubURL) = 1
   \<and> (\<exists>fullOffers x.
         GetOffers stubSession (cityArgs (stubArgs [7]) (sample 0 7)) = Inr (fullOffers, x)
         \<and> bestOfferOf fullOffers \<in> set fullOffers
         \<and> flights_Offer.StartDate (bestOfferOf fullOffers) = 1
         \<and> flights_Offer.ReturnDate (bestOfferOf fullOffers) = 8
         \<and> SrcAirportCode (bestOfferOf fullOffers) = ''SFO''
         \<and> DstAirportCode (bestOfferOf fullOffers) = ''JFK''
         \<and> flights_Offer.Price (bestOfferOf fullOffers) = 500)"
proof -
  have run: "fst (refineTask stubSession (stubArgs [7]) 7 (sample 0 7))
     = Some (Inr (mkResult (stubOffer 1 8 ''SFO'' 500) 7 stubURL))"
    by (simp add: eval_defs stubSession_def)
  have f: "flights_Offer.StartDate (sample 0 7) = 0"
    "Result.StartDate (mkResult (stubOffer 1 8 ''SFO'' 500) 7 stubURL) = 1"
    "Result.ReturnDate (mkResult (stubOffer 1 8 ''SFO'' 500) 7 stubURL) = 8"
    "SrcAirport (mkResult (stubOffer 1 8 ''SFO'' 500) 7 stubURL) = ''SFO''"
    "DstAirport (mkResult (stubOffer 1 8 ''SFO'' 500) 7 stubURL) = ''JFK''"
    "Result.Price (mkResult (stubOffer 1 8 ''SFO'' 500) 7 stubURL) = 500"
    by (simp_all add: mkResult_def stubOffer_def sample_def)
  from one_result_per_candidate
         [of stubSession "stubArgs [7]" 7 "[]" "[]" "sample 0 7"
             "mkResult (stubOffer 1 8 ''SFO'' 500) 7 stubURL"] run
  have "\<exists>fullOffers x.
           GetOffers stubSession (cityArgs (stubArgs [7]) (sample 0 7)) = Inr (fullOffers, x)
           \<and> bestOfferOf fullOffers \<in> set fullOffers
           \<and> Result.StartDate (mkResult (stubOffer 1 8 ''SFO'' 500) 7 stubURL)
               = flights_Offer.StartDate (bestOfferOf fullOffers)
           \<and> Result.ReturnDate (mkResult (stubOffer 1 8 ''SFO'' 500) 7 stubURL)
               = flights_Offer.ReturnDate (bestOfferOf fullOffers)
           \<and> SrcAirport (mkResult (stubOffer 1 8 ''SFO'' 500) 7 stubURL)
               = SrcAirportCode (bestOfferOf fullOffers)
           \<and> DstAirport (mkResult (stubOffer 1 8 ''SFO'' 500) 7 stubURL)
               = DstAirportCode (bestOfferOf fullOffers)
           \<and> Result.Price (mkResult (stubOffer 1 8 ''SFO'' 500) 7 stubURL)
               = flights_Offer.Price (bestOfferOf fullOffers)"
    by blast
  then obtain fullOffers x where g:
    "GetOffers stubSession (cityArgs (stubArgs [7]) (sample 0 7)) = Inr (fullOffers, x)"
    "bestOfferOf fullOffers \<in> set fullOffers"
    "Result.StartDate (mkResult (stubOffer 1 8 ''SFO'' 500) 7 stubURL)
       = flights_Offer.StartDate (bestOfferOf fullOffers)"
    "Result.ReturnDate (mkResult (stubOffer 1 8 ''SFO'' 500) 7 stubURL)
       = flights_Offer.ReturnDate (bestOfferOf fullOffers)"
    "SrcAirport (mkResult (stubOffer 1 8 ''SFO'' 500) 7 stubURL)
       = SrcAirportCode (bestOfferOf fullOffers)"
    "DstAirport (mkResult (stubOffer 1 8 ''SFO'' 500) 7 stubURL)
       = DstAirportCode (bestOfferOf fullOffers)"
    "Result.Price (mkResult (stubOffer 1 8 ''SFO'' 500) 7 stubURL)
       = flights_Offer.Price (bestOfferOf fullOffers)"
    by blast
  have h: "flights_Offer.StartDate (bestOfferOf fullOffers) = 1"
    "flights_Offer.ReturnDate (bestOfferOf fullOffers) = 8"
    "SrcAirportCode (bestOfferOf fullOffers) = ''SFO''"
    "DstAirportCode (bestOfferOf fullOffers) = ''JFK''"
    "flights_Offer.Price (bestOfferOf fullOffers) = 500"
    using g(3-7) f(2-6) by (simp_all only:)
  from run f(1,2) g(1,2) h show ?thesis by blast
qed

end
